theory Spec2Isabelle
  imports Main "HOL-Library.Sublist" "HOL-Library.List_Lexorder" "HOL-Library.Char_ord"
begin

section \<open>The type descriptions read by the generator\<close>

text \<open>
  \<^verbatim>\<open>msg_generate.go\<close> inspects the package through \<^verbatim>\<open>go/types\<close>. The part of
  that interface the generator touches is modelled by the datatypes below: a type is a
  basic type of some kind, a slice, a pointer, a named type together with the type it
  is declared as, a struct with its fields, or anything else. A field carries what
  \<^verbatim>\<open>st.Field(i).Name()\<close>, \<^verbatim>\<open>st.Field(i).Type()\<close>, \<^verbatim>\<open>st.Field(i).Anonymous()\<close> and
  \<^verbatim>\<open>st.Tag(i)\<close> return.
\<close>

datatype basic_kind =
    Invalid | Bool | Int_kind | Int8 | Int16 | Int32 | Int64
  | Uint | Uint8 | Uint16 | Uint32 | Uint64 | Uintptr
  | Float32 | Float64 | Complex64 | Complex128 | String | UnsafePointer

datatype gotype =
    Basic basic_kind
  | Slice gotype
  | Pointer gotype
  | Named string gotype
  | Struct "field list"
  | Other
and field = Field (Name: string) (Type: gotype) (Anonymous: bool) (Tag: string)

text \<open>\<^verbatim>\<open>t.Underlying()\<close>: a named type answers with the type behind its declaration.\<close>

fun Underlying :: "gotype \<Rightarrow> gotype" where
  "Underlying (Named n u) = Underlying u"
| "Underlying t = t"

text \<open>The type assertion \<^verbatim>\<open>_, ok := t.(*types.Slice)\<close> looks at the type itself.\<close>

fun is_Slice :: "gotype \<Rightarrow> bool" where
  "is_Slice (Slice t) = True"
| "is_Slice t = False"

text \<open>
  The source compares types with \<^verbatim>\<open>==\<close>, which is identity of the \<^verbatim>\<open>types.Type\<close>
  values and not equality of what they describe. The type checker keeps exactly one
  value for every declared (named) type, so two named types are the same value exactly
  when their descriptions are equal. For a type of any other kind the description does
  not decide the comparison: two struct literals with the same fields are two values,
  and so are \<^verbatim>\<open>byte\<close> and \<^verbatim>\<open>uint8\<close>, two basic types of one kind. \<open>same_type\<close>
  holds between equal descriptions of a named type and fails everywhere else; what is
  proved below about records is proved for a header that is a declared named type.
\<close>

fun is_Named :: "gotype \<Rightarrow> bool" where
  "is_Named (Named n u) = True"
| "is_Named t = False"

definition same_type :: "gotype \<Rightarrow> gotype \<Rightarrow> bool" where
  "same_type t t' \<longleftrightarrow> t = t' \<and> is_Named t"

text \<open>
  An object of the package scope, with \<^verbatim>\<open>o.Name()\<close>, \<^verbatim>\<open>o.Exported()\<close> and
  \<^verbatim>\<open>o.Type()\<close>. A scope is the list of its objects: \<^verbatim>\<open>scope.Lookup\<close> finds the
  object of a name, \<^verbatim>\<open>scope.Names()\<close> lists the names in sorted order.
\<close>

datatype object = Object (oName: string) (Exported: bool) (oType: gotype)

type_synonym scope = "object list"

definition Lookup :: "scope \<Rightarrow> string \<Rightarrow> object option" where
  "Lookup scope name = find (\<lambda>obj. oName obj = name) scope"

definition Names :: "scope \<Rightarrow> string list" where
  "Names scope = sort (remdups (map oName scope))"

text \<open>
  The generator stops in two ways: \<^verbatim>\<open>log.Fatal*\<close> with the values it prints, and a
  run-time panic (a nil dereference or a failed type assertion).
\<close>

datatype gen_error = Fatal "string list" | Panic

section \<open>getTypeStruct\<close>

text \<open>
  \<open>getTypeStruct\<close> returns the struct of a record type (the innermost one, when the
  header is reached through embedded structs) and whether embedded structs were
  resolved. The struct is its list of fields; \<open>None\<close> is the \<^verbatim>\<open>nil\<close> struct. The
  comparison \<^verbatim>\<open>st.Field(0).Type() == scope.Lookup("RR_Header").Type()\<close> is \<open>same_type\<close>;
  it panics when the scope has no such object. The recursion ends because the type of a field is a part of the type
  that holds the field.
\<close>

function getTypeStruct :: "gotype \<Rightarrow> scope \<Rightarrow> gen_error + (field list option \<times> bool)" where
  "getTypeStruct t scope =
     (case Underlying t of
        Struct st \<Rightarrow>
          if length st = 0 then Inr (None, False)
          else (case Lookup scope ''RR_Header'' of
                  None \<Rightarrow> Inl Panic
                | Some h \<Rightarrow>
                    if same_type (Type (st ! 0)) (oType h) then Inr (Some st, False)
                    else if Anonymous (st ! 0) then
                      (case getTypeStruct (Type (st ! 0)) scope of
                         Inl e \<Rightarrow> Inl e
                       | Inr (st', _) \<Rightarrow> Inr (st', True))
                    else Inr (None, False))
      | _ \<Rightarrow> Inr (None, False))"
  by pat_completeness auto
termination
proof (relation "measure (\<lambda>(t, scope). size t)", goal_cases)
  case 1
  show ?case by simp
next
  case (2 t scope st h)
  have u: "size (Underlying t') \<le> size t'" for t' :: gotype
    by (induction t' rule: Underlying.induct) simp_all
  from 2(2) obtain f fs where st: "st = f # fs" by (cases st) auto
  have "size (Type f) < size f" by (cases f) simp
  also have "\<dots> < size (Struct st)" by (simp add: st)
  also have "\<dots> \<le> size t" using u [of t] 2(1) by simp
  finally show ?case by (simp add: st)
qed

declare getTypeStruct.simps [simp del]

text \<open>
  The rule of the specification, in its words: a type is a record when its underlying
  representation is a non-empty struct whose first field has the header type, or whose
  first field is embedded and has a type that is itself a record.
\<close>

inductive is_record :: "gotype \<Rightarrow> gotype \<Rightarrow> bool" for hdr :: gotype where
  direct: "Underlying t = Struct st \<Longrightarrow> st \<noteq> [] \<Longrightarrow> Type (st ! 0) = hdr \<Longrightarrow> is_record hdr t"
| embedded: "Underlying t = Struct st \<Longrightarrow> st \<noteq> [] \<Longrightarrow> Anonymous (st ! 0) \<Longrightarrow>
     is_record hdr (Type (st ! 0)) \<Longrightarrow> is_record hdr t"

code_pred is_record .

text \<open>
  The struct that stands for a record, again in the words of the specification: the
  struct of the type itself when its first field has the header type; otherwise, when
  the first field is embedded, the struct that stands for the embedded type. The
  enclosing type gives the record its name, the struct found inside gives the fields.
\<close>

inductive resolves_to :: "gotype \<Rightarrow> gotype \<Rightarrow> field list \<Rightarrow> bool" for hdr :: gotype where
  here: "Underlying t = Struct st \<Longrightarrow> st \<noteq> [] \<Longrightarrow> Type (st ! 0) = hdr \<Longrightarrow> resolves_to hdr t st"
| inside: "Underlying t = Struct st' \<Longrightarrow> st' \<noteq> [] \<Longrightarrow> Type (st' ! 0) \<noteq> hdr \<Longrightarrow>
     Anonymous (st' ! 0) \<Longrightarrow> resolves_to hdr (Type (st' ! 0)) st \<Longrightarrow> resolves_to hdr t st"

code_pred resolves_to .

section \<open>The text the generator writes\<close>

text \<open>
  \<^verbatim>\<open>fmt.Fprintf\<close> with the verb \<^verbatim>\<open>%s\<close>, the only verb of the source's format strings:
  every \<^verbatim>\<open>%s\<close> is replaced by the next argument, which is copied as it is. A verb
  without an argument and arguments without a verb are reported in the output the way
  \<^verbatim>\<open>fmt\<close> reports them; no call of the source does either.
\<close>

fun Sprintf :: "string \<Rightarrow> string list \<Rightarrow> string" where
  "Sprintf [] [] = []"
| "Sprintf [] (a # as) =
     ''%!(EXTRA '' @ concat (map (\<lambda>x. ''string='' @ x @ '', '') (butlast (a # as)))
       @ ''string='' @ last (a # as) @ '')''"
| "Sprintf [c] as = c # Sprintf [] as"
| "Sprintf (c # d # fmt) as =
     (if c = CHR ''%'' \<and> d = CHR ''s'' then
        (case as of
           [] \<Rightarrow> ''%!s(MISSING)'' @ Sprintf fmt []
         | a # as' \<Rightarrow> a @ Sprintf fmt as')
      else c # Sprintf (d # fmt) as)"

text \<open>
  The buffer \<^verbatim>\<open>b\<close> only ever grows at its end. It is kept as the list of the writes
  made to it, one constructor for each place of the source that writes: the closures
  \<^verbatim>\<open>o\<close>, \<^verbatim>\<open>unpackField\<close>, \<^verbatim>\<open>unpackFieldBuf\<close>, \<^verbatim>\<open>unpackFieldRest\<close>,
  \<^verbatim>\<open>unpackFieldLength\<close> and \<^verbatim>\<open>readInt\<close> (the first five together with the error
  check they write after the call) and the direct \<^verbatim>\<open>fmt.Fprint*\<close> calls (the gateway
  line of the unpack loop together with the \<^verbatim>\<open>errCheck()\<close> that follows it). The
  function \<open>render\<close> gives the text of each write, and the content of the buffer is
  the concatenation of the rendered writes.
\<close>

datatype stmt =
    PackageHdr
  | PackComment
  | PackFunc string
  | PackO string string
  | SaltPack string
  | PackReturn
  | UnpackComment
  | UnpackFunc string
  | CursorInit
  | UnpackField string string
  | UnpackFieldBuf string string
  | UnpackFieldRest string string
  | UnpackFieldLength string string string
  | ReadInt string string
  | UnpackGateway
  | EmptyCheck
  | TrailingCheck
  | UnpackReturn

definition packageHdr :: string where
  \<open>packageHdr = ''\<newline>// Code generated by "go run msg_generate.go"; DO NOT EDIT.\<newline>\<newline>package dns\<newline>\<newline>import "golang.org/x/crypto/cryptobyte"\<newline>\<newline>''\<close>

definition errCheck :: string where
  "errCheck = ''if err != nil { return err }\<newline>''"

primrec render :: "stmt \<Rightarrow> string" where
  "render PackageHdr = packageHdr"
| "render PackComment = ''// pack*() functions\<newline>\<newline>''"
| "render (PackFunc name) =
     Sprintf ''func (rr *%s) pack(msg []byte, off int, compression compressionMap, compress bool) (off1 int, err error) {\<newline>'' [name]"
| "render (PackO s fieldName) =
     Sprintf s [fieldName] @ ''if err != nil {\<newline>return off, err\<newline>}\<newline>''"
| \<open>render (SaltPack fieldName) =
     Sprintf ''// Only pack salt if value is not "-", i.e. empty\<newline>if rr.%s != "-" {\<newline>  off, err = packStringHex(rr.%s, msg, off)\<newline>  if err != nil {\<newline>    return off, err\<newline>  }\<newline>}\<newline>'' [fieldName, fieldName]\<close>
| "render PackReturn = ''return off, nil }\<newline>\<newline>''"
| "render UnpackComment = ''// unpack*() functions\<newline>\<newline>''"
| "render (UnpackFunc name) =
     Sprintf ''func (rr *%s) unpack(data, msgBuf []byte) (err error) {\<newline>'' [name]"
| "render CursorInit = ''s := cryptobyte.String(data)\<newline>''"
| "render (UnpackField fieldName unpacker) =
     Sprintf ''rr.%s, err = %s(&s)\<newline>'' [fieldName, unpacker] @ errCheck"
| "render (UnpackFieldBuf fieldName unpacker) =
     Sprintf ''rr.%s, err = %s(&s, msgBuf)\<newline>'' [fieldName, unpacker] @ errCheck"
| "render (UnpackFieldRest fieldName unpacker) =
     Sprintf ''rr.%s, err = %s(&s, len(s))\<newline>'' [fieldName, unpacker] @ errCheck"
| "render (UnpackFieldLength fieldName unpacker len) =
     Sprintf ''rr.%s, err = %s(&s, int(rr.%s))\<newline>'' [fieldName, unpacker, len] @ errCheck"
| "render (ReadInt type fieldName) =
     Sprintf ''if !s.Read%s(&rr.%s) { return errUnpackOverflow }\<newline>'' [type, fieldName]"
| "render UnpackGateway =
     ''rr.GatewayAddr, rr.GatewayHost, err = unpackIPSECGateway(&s, msgBuf, rr.GatewayType)\<newline>'' @ errCheck"
| "render EmptyCheck = ''if s.Empty() { return nil }\<newline>''"
| "render TrailingCheck = ''if !s.Empty() { return errTrailingRData }\<newline>''"
| "render UnpackReturn = ''return nil }\<newline>\<newline>''"

definition bufferText :: "stmt list \<Rightarrow> string" where
  "bufferText b = concat (map render b)"

section \<open>structMember and structTag\<close>

text \<open>
  The functions of \<^verbatim>\<open>strings\<close> they use, for the separator \<^verbatim>\<open>":"\<close> of one
  character: \<^verbatim>\<open>LastIndex\<close> is \<open>-1\<close> when the separator is absent, \<^verbatim>\<open>Cut\<close> gives
  the text in front of the first separator, or the whole text when there is none.
\<close>

definition HasPrefix :: "string \<Rightarrow> string \<Rightarrow> bool" where
  "HasPrefix s pre = prefix pre s"

definition TrimPrefix :: "string \<Rightarrow> string \<Rightarrow> string" where
  "TrimPrefix s pre = (if HasPrefix s pre then drop (length pre) s else s)"

definition TrimSuffix :: "string \<Rightarrow> string \<Rightarrow> string" where
  "TrimSuffix s suf = (if suffix suf s then take (length s - length suf) s else s)"

definition LastIndex :: "string \<Rightarrow> char \<Rightarrow> int" where
  "LastIndex s c =
     (if c \<in> set s then int (length s) - 1 - int (length (takeWhile (\<lambda>x. x \<noteq> c) (rev s)))
      else - 1)"

definition Cut_before :: "string \<Rightarrow> char \<Rightarrow> string" where
  "Cut_before s c = takeWhile (\<lambda>x. x \<noteq> c) s"

definition structMember :: "string \<Rightarrow> string" where
  \<open>structMember s =
     (let idx = LastIndex s (CHR '':'') in TrimSuffix (drop (nat (idx + 1)) s) ''"'')\<close>

definition structTag :: "string \<Rightarrow> string" where
  \<open>structTag s = (let s = TrimPrefix s ''dns:"size-'' in Cut_before s (CHR '':''))\<close>

section \<open>The pack loop\<close>

text \<open>
  The body of the loop over the fields of a struct in the first half of \<^verbatim>\<open>main\<close>,
  for the field of index \<open>i\<close>: the result is what the iteration appends to the buffer,
  or the way it stops the generator. The closure \<^verbatim>\<open>o\<close> is \<open>o'\<close>. The cases are
  tried in the order of the source; a \<^verbatim>\<open>fallthrough\<close> case has the body of the case
  after it. The type assertion \<^verbatim>\<open>.(*types.Basic)\<close> of the empty tag panics on a type
  that is not basic.
\<close>

definition packLoopBody :: "string \<Rightarrow> field list \<Rightarrow> nat \<Rightarrow> gen_error + stmt list" where
  \<open>packLoopBody name st i =
     (let f = st ! i;
          o' = (\<lambda>s. Inr [PackO s (Name f)])
      in
      if is_Slice (Type f) then
        (if Tag f = ''dns:"-"'' then Inr []
         else if Tag f = ''dns:"txt"'' then
           o' ''off, err = packStringTxt(rr.%s, msg, off)\<newline>''
         else if Tag f = ''dns:"opt"'' then
           o' ''off, err = packDataOpt(rr.%s, msg, off)\<newline>''
         else if Tag f = ''dns:"nsec"'' then
           o' ''off, err = packDataNsec(rr.%s, msg, off)\<newline>''
         else if Tag f = ''dns:"pairs"'' then
           o' ''off, err = packDataSVCB(rr.%s, msg, off)\<newline>''
         else if Tag f = ''dns:"domain-name"'' then
           o' ''off, err = packDataDomainNames(rr.%s, msg, off, compression, false)\<newline>''
         else if Tag f = ''dns:"apl"'' then
           o' ''off, err = packDataApl(rr.%s, msg, off)\<newline>''
         else Inl (Fatal [name, Name f, Tag f]))
      else if Tag f = ''dns:"-"'' then Inr []
      else if Tag f = ''dns:"cdomain-name"'' then
        o' ''off, err = packDomainName(rr.%s, msg, off, compression, compress)\<newline>''
      else if Tag f = ''dns:"domain-name"'' then
        o' ''off, err = packDomainName(rr.%s, msg, off, compression, false)\<newline>''
      else if Tag f = ''dns:"a"'' then
        o' ''off, err = packDataA(rr.%s, msg, off)\<newline>''
      else if Tag f = ''dns:"aaaa"'' then
        o' ''off, err = packDataAAAA(rr.%s, msg, off)\<newline>''
      else if Tag f = ''dns:"uint48"'' then
        o' ''off, err = packUint48(rr.%s, msg, off)\<newline>''
      else if Tag f = ''dns:"txt"'' then
        o' ''off, err = packString(rr.%s, msg, off)\<newline>''
      else if HasPrefix (Tag f) ''dns:"size-base32'' \<or> Tag f = ''dns:"base32"'' then
        o' ''off, err = packStringBase32(rr.%s, msg, off)\<newline>''
      else if HasPrefix (Tag f) ''dns:"size-base64'' \<or> Tag f = ''dns:"base64"'' then
        o' ''off, err = packStringBase64(rr.%s, msg, off)\<newline>''
      else if HasPrefix (Tag f) ''dns:"size-hex:SaltLength'' then
        (let field = Name f in Inr [SaltPack field])
      else if HasPrefix (Tag f) ''dns:"size-hex'' \<or> Tag f = ''dns:"hex"'' then
        o' ''off, err = packStringHex(rr.%s, msg, off)\<newline>''
      else if Tag f = ''dns:"any"'' then
        o' ''off, err = packStringAny(rr.%s, msg, off)\<newline>''
      else if Tag f = ''dns:"octet"'' then
        o' ''off, err = packStringOctet(rr.%s, msg, off)\<newline>''
      else if Tag f = ''dns:"ipsechost"'' \<or> Tag f = ''dns:"amtrelayhost"'' then
        o' ''off, err = packIPSECGateway(rr.GatewayAddr, rr.%s, msg, off, rr.GatewayType, compression, false)\<newline>''
      else if Tag f = '''' then
        (case Type f of
           Basic k \<Rightarrow>
             if k = Uint8 then o' ''off, err = packUint8(rr.%s, msg, off)\<newline>''
             else if k = Uint16 then o' ''off, err = packUint16(rr.%s, msg, off)\<newline>''
             else if k = Uint32 then o' ''off, err = packUint32(rr.%s, msg, off)\<newline>''
             else if k = Uint64 then o' ''off, err = packUint64(rr.%s, msg, off)\<newline>''
             else if k = String then o' ''off, err = packString(rr.%s, msg, off)\<newline>''
             else Inl (Fatal [name, Name f])
         | _ \<Rightarrow> Inl Panic)
      else Inl (Fatal [name, Name f, Tag f]))\<close>

function packLoop :: "string \<Rightarrow> field list \<Rightarrow> nat \<Rightarrow> stmt list \<Rightarrow> gen_error + stmt list" where
  "packLoop name st i b =
     (if i < length st then
        (case packLoopBody name st i of
           Inl e \<Rightarrow> Inl e
         | Inr ss \<Rightarrow> packLoop name st (i + 1) (b @ ss))
      else Inr b)"
  by pat_completeness auto

termination
  by (relation "measure (\<lambda>(name, st, i, b). length st - i)") auto

declare packLoop.simps [simp del]

section \<open>The unpack loop\<close>

text \<open>
  The body of the field loop in the second half of \<^verbatim>\<open>main\<close>. The three
  \<^verbatim>\<open>continue\<close> statements leave the iteration before the check of \<^verbatim>\<open>s.Empty()\<close>
  at its end is written: after a \<^verbatim>\<open>size-\<close> tag, after the switch of a slice field,
  and for an ignored field. \<open>unpackSwitch\<close> is the last switch of the body without its
  first case, which \<open>unpackLoopBody\<close> tries before it.
\<close>

definition unpackSwitch :: "string \<Rightarrow> field \<Rightarrow> gen_error + stmt list" where
  \<open>unpackSwitch name f =
     (let unpackField = (\<lambda>unpacker. Inr [UnpackField (Name f) unpacker]);
          unpackFieldBuf = (\<lambda>unpacker. Inr [UnpackFieldBuf (Name f) unpacker]);
          unpackFieldRest = (\<lambda>unpacker. Inr [UnpackFieldRest (Name f) unpacker]);
          readInt = (\<lambda>type. Inr [ReadInt type (Name f)])
      in
      if Tag f = ''dns:"cdomain-name"'' \<or> Tag f = ''dns:"domain-name"'' then
        unpackFieldBuf ''unpackDomainName''
      else if Tag f = ''dns:"a"'' then unpackField ''unpackDataA''
      else if Tag f = ''dns:"aaaa"'' then unpackField ''unpackDataAAAA''
      else if Tag f = ''dns:"uint48"'' then readInt ''Uint48''
      else if Tag f = ''dns:"txt"'' then unpackField ''unpackString''
      else if Tag f = ''dns:"base32"'' then unpackFieldRest ''unpackStringBase32''
      else if Tag f = ''dns:"base64"'' then unpackFieldRest ''unpackStringBase64''
      else if Tag f = ''dns:"hex"'' then unpackFieldRest ''unpackStringHex''
      else if Tag f = ''dns:"any"'' then unpackFieldRest ''unpackStringAny''
      else if Tag f = ''dns:"octet"'' then unpackField ''unpackStringOctet''
      else if Tag f = ''dns:"ipsechost"'' \<or> Tag f = ''dns:"amtrelayhost"'' then
        Inr [UnpackGateway]
      else if Tag f = '''' then
        (case Type f of
           Basic k \<Rightarrow>
             if k = Uint8 then readInt ''Uint8''
             else if k = Uint16 then readInt ''Uint16''
             else if k = Uint32 then readInt ''Uint32''
             else if k = Uint64 then readInt ''Uint64''
             else if k = String then unpackField ''unpackString''
             else Inl (Fatal [name, Name f])
         | _ \<Rightarrow> Inl Panic)
      else Inl (Fatal [name, Name f, Tag f]))\<close>

definition unpackLoopBody :: "string \<Rightarrow> field list \<Rightarrow> nat \<Rightarrow> gen_error + stmt list" where
  \<open>unpackLoopBody name st i =
     (let f = st ! i;
          unpackField = (\<lambda>unpacker. Inr [UnpackField (Name f) unpacker]);
          unpackFieldBuf = (\<lambda>unpacker. Inr [UnpackFieldBuf (Name f) unpacker]);
          unpackFieldLength = (\<lambda>unpacker len. Inr [UnpackFieldLength (Name f) unpacker len])
      in
      if HasPrefix (Tag f) ''dns:"size-'' then
        (let structMember = structMember (Tag f);
             structTag = structTag (Tag f)
         in
         if structTag = ''hex'' then unpackFieldLength ''unpackStringHex'' structMember
         else if structTag = ''base32'' then unpackFieldLength ''unpackStringBase32'' structMember
         else if structTag = ''base64'' then unpackFieldLength ''unpackStringBase64'' structMember
         else Inl (Fatal [name, Name f, Tag f]))
      else if is_Slice (Type f) then
        (if Tag f = ''dns:"-"'' then Inr []
         else if Tag f = ''dns:"txt"'' then unpackField ''unpackStringTxt''
         else if Tag f = ''dns:"opt"'' then unpackField ''unpackDataOpt''
         else if Tag f = ''dns:"nsec"'' then unpackField ''unpackDataNsec''
         else if Tag f = ''dns:"pairs"'' then unpackField ''unpackDataSVCB''
         else if Tag f = ''dns:"domain-name"'' then unpackFieldBuf ''unpackDataDomainNames''
         else if Tag f = ''dns:"apl"'' then unpackField ''unpackDataApl''
         else Inl (Fatal [name, Name f, Tag f]))
      else if Tag f = ''dns:"-"'' then Inr []
      else
        (case unpackSwitch name f of
           Inl e \<Rightarrow> Inl e
         | Inr ss \<Rightarrow> Inr (ss @ (if i < length st - 1 then [EmptyCheck] else []))))\<close>

function unpackLoop :: "string \<Rightarrow> field list \<Rightarrow> nat \<Rightarrow> stmt list \<Rightarrow> gen_error + stmt list" where
  "unpackLoop name st i b =
     (if i < length st then
        (case unpackLoopBody name st i of
           Inl e \<Rightarrow> Inl e
         | Inr ss \<Rightarrow> unpackLoop name st (i + 1) (b @ ss))
      else Inr b)"
  by pat_completeness auto

termination
  by (relation "measure (\<lambda>(name, st, i, b). length st - i)") auto

declare unpackLoop.simps [simp del]

section \<open>main\<close>

text \<open>
  The first loop of \<^verbatim>\<open>main\<close> collects the names of the record types, over
  \<^verbatim>\<open>scope.Names()\<close> in order.
\<close>

fun collectTypes :: "scope \<Rightarrow> string list \<Rightarrow> string list \<Rightarrow> gen_error + string list" where
  "collectTypes scope [] namedTypes = Inr namedTypes"
| "collectTypes scope (name # names) namedTypes =
     (case Lookup scope name of
        None \<Rightarrow> collectTypes scope names namedTypes
      | Some obj \<Rightarrow>
          if \<not> Exported obj then collectTypes scope names namedTypes
          else
            (case getTypeStruct (oType obj) scope of
               Inl e \<Rightarrow> Inl e
             | Inr (st, _) \<Rightarrow>
                 if st = None then collectTypes scope names namedTypes
                 else if name = ''PrivateRR'' then collectTypes scope names namedTypes
                 else if Lookup scope (''Type'' @ oName obj) = None \<and> oName obj \<noteq> ''RFC3597'' then
                   Inl (Fatal [Sprintf ''Constant Type%s does not exist.'' [oName obj]])
                 else collectTypes scope names (namedTypes @ [oName obj])))"

text \<open>
  Both emitting loops start an iteration with \<^verbatim>\<open>o := scope.Lookup(name)\<close> and
  \<^verbatim>\<open>st, _ := getTypeStruct(o.Type(), scope)\<close> and then use \<^verbatim>\<open>o\<close> and \<^verbatim>\<open>st\<close>
  unchecked: a missing object or struct is a nil dereference.
\<close>

definition lookupStruct :: "scope \<Rightarrow> string \<Rightarrow> gen_error + field list" where
  "lookupStruct scope name =
     (case Lookup scope name of
        None \<Rightarrow> Inl Panic
      | Some obj \<Rightarrow>
          (case getTypeStruct (oType obj) scope of
             Inl e \<Rightarrow> Inl e
           | Inr (None, _) \<Rightarrow> Inl Panic
           | Inr (Some st, _) \<Rightarrow> Inr st))"

text \<open>
  One iteration of the loop that writes the pack functions, and of the loop that writes
  the unpack functions, for the record \<open>name\<close> with the struct \<open>st\<close>: the field loop
  starts at index 1.
\<close>

definition packRoutine :: "string \<Rightarrow> field list \<Rightarrow> stmt list \<Rightarrow> gen_error + stmt list" where
  "packRoutine name st b =
     (case packLoop name st 1 (b @ [PackFunc name]) of
        Inl e \<Rightarrow> Inl e
      | Inr b' \<Rightarrow> Inr (b' @ [PackReturn]))"

definition unpackRoutine :: "string \<Rightarrow> field list \<Rightarrow> stmt list \<Rightarrow> gen_error + stmt list" where
  "unpackRoutine name st b =
     (case unpackLoop name st 1 (b @ [UnpackFunc name, CursorInit]) of
        Inl e \<Rightarrow> Inl e
      | Inr b' \<Rightarrow> Inr (b' @ [TrailingCheck, UnpackReturn]))"

fun packAll :: "scope \<Rightarrow> string list \<Rightarrow> stmt list \<Rightarrow> gen_error + stmt list" where
  "packAll scope [] b = Inr b"
| "packAll scope (name # names) b =
     (case lookupStruct scope name of
        Inl e \<Rightarrow> Inl e
      | Inr st \<Rightarrow>
          (case packRoutine name st b of
             Inl e \<Rightarrow> Inl e
           | Inr b' \<Rightarrow> packAll scope names b'))"

fun unpackAll :: "scope \<Rightarrow> string list \<Rightarrow> stmt list \<Rightarrow> gen_error + stmt list" where
  "unpackAll scope [] b = Inr b"
| "unpackAll scope (name # names) b =
     (case lookupStruct scope name of
        Inl e \<Rightarrow> Inl e
      | Inr st \<Rightarrow>
          (case unpackRoutine name st b of
             Inl e \<Rightarrow> Inl e
           | Inr b' \<Rightarrow> unpackAll scope names b'))"

text \<open>
  \<^verbatim>\<open>main\<close>, from the scope of the loaded package to the text handed to the file.
  \<^verbatim>\<open>format.Source\<close> belongs to the Go library and is a parameter; loading the package
  and writing the file are outside the model.
\<close>

definition main :: "(string \<Rightarrow> gen_error + string) \<Rightarrow> scope \<Rightarrow> gen_error + string" where
  "main format_Source scope =
     (case collectTypes scope (Names scope) [] of
        Inl e \<Rightarrow> Inl e
      | Inr namedTypes \<Rightarrow>
          (case packAll scope namedTypes [PackageHdr, PackComment] of
             Inl e \<Rightarrow> Inl e
           | Inr b \<Rightarrow>
               (case unpackAll scope namedTypes (b @ [UnpackComment]) of
                  Inl e \<Rightarrow> Inl e
                | Inr b' \<Rightarrow> format_Source (bufferText b'))))"

section \<open>The steps of a generated routine\<close>

text \<open>
  A pack step is a write of the closure \<^verbatim>\<open>o\<close> or of the salt template; an unpack step
  is a write of one of the unpack closures or of the gateway line. \<open>pack_names\<close> and
  \<open>unpack_names\<close> list the records whose pack function and unpack function a buffer
  holds, in the order of the buffer. \<open>ignored\<close> is the tag of a field that the generator
  leaves out.
\<close>

definition is_pack_step :: "stmt \<Rightarrow> bool" where
  "is_pack_step x = (case x of PackO s n \<Rightarrow> True | SaltPack n \<Rightarrow> True | _ \<Rightarrow> False)"

definition is_unpack_step :: "stmt \<Rightarrow> bool" where
  "is_unpack_step x =
     (case x of
        UnpackField n u \<Rightarrow> True
      | UnpackFieldBuf n u \<Rightarrow> True
      | UnpackFieldRest n u \<Rightarrow> True
      | UnpackFieldLength n u l \<Rightarrow> True
      | ReadInt t n \<Rightarrow> True
      | UnpackGateway \<Rightarrow> True
      | _ \<Rightarrow> False)"

definition pack_names :: "stmt list \<Rightarrow> string list" where
  "pack_names b = concat (map (\<lambda>x. case x of PackFunc n \<Rightarrow> [n] | _ \<Rightarrow> []) b)"

definition unpack_names :: "stmt list \<Rightarrow> string list" where
  "unpack_names b = concat (map (\<lambda>x. case x of UnpackFunc n \<Rightarrow> [n] | _ \<Rightarrow> []) b)"

definition ignored :: string where
  \<open>ignored = ''dns:"-"''\<close>

text \<open>
  The check is the last statement of the loop body, under \<^verbatim>\<open>i < st.NumFields()-1\<close>.
  The iterations that reach it are those that leave the body through none of its
  \<^verbatim>\<open>continue\<close> statements.
\<close>

definition empty_check_after :: "field list \<Rightarrow> nat \<Rightarrow> bool" where
  \<open>empty_check_after st i \<longleftrightarrow>
     \<not> HasPrefix (Tag (st ! i)) ''dns:"size-'' \<and> \<not> is_Slice (Type (st ! i))
     \<and> Tag (st ! i) \<noteq> ignored \<and> i < length st - 1\<close>

section \<open>What the generated statements do\<close>

text \<open>
  The statements the generator writes are Go code, spelled out in the source. Run as
  part of a generated routine they behave as follows; the functions of the codec
  library that they call are parameters.

  An unpack routine works on the record \<open>rr\<close> and the cursor \<open>s\<close> over the bytes of
  the record data. A call line runs its primitive, which changes \<open>rr\<close> and \<open>s\<close>, and
  returns the error if there is one; \<^verbatim>\<open>s.ReadUintN\<close> answers whether it could read;
  the two checks of \<^verbatim>\<open>s.Empty()\<close> and the final \<^verbatim>\<open>return nil\<close> are as written. The
  result is the error returned (\<open>None\<close> is \<^verbatim>\<open>nil\<close>) with the record and the cursor at
  that point.
\<close>

datatype rt_error = errTrailingRData | errUnpackOverflow | errPrimitive string

type_synonym bytes = "char list"

definition is_call_step :: "stmt \<Rightarrow> bool" where
  "is_call_step x =
     (case x of
        UnpackField n u \<Rightarrow> True
      | UnpackFieldBuf n u \<Rightarrow> True
      | UnpackFieldRest n u \<Rightarrow> True
      | UnpackFieldLength n u l \<Rightarrow> True
      | UnpackGateway \<Rightarrow> True
      | _ \<Rightarrow> False)"

fun exec_unpack ::
  "(stmt \<Rightarrow> 'r \<times> bytes \<Rightarrow> rt_error option \<times> 'r \<times> bytes) \<Rightarrow>
   (stmt \<Rightarrow> 'r \<times> bytes \<Rightarrow> bool \<times> 'r \<times> bytes) \<Rightarrow>
   stmt list \<Rightarrow> 'r \<times> bytes \<Rightarrow> rt_error option \<times> 'r \<times> bytes" where
  "exec_unpack call read [] \<sigma> = (None, \<sigma>)"
| "exec_unpack call read (x # xs) \<sigma> =
     (if is_call_step x then
        (case call x \<sigma> of
           (None, \<sigma>') \<Rightarrow> exec_unpack call read xs \<sigma>'
         | (Some err, \<sigma>') \<Rightarrow> (Some err, \<sigma>'))
      else
        (case x of
           ReadInt t n \<Rightarrow>
             (case read x \<sigma> of
                (True, \<sigma>') \<Rightarrow> exec_unpack call read xs \<sigma>'
              | (False, \<sigma>') \<Rightarrow> (Some errUnpackOverflow, \<sigma>'))
         | EmptyCheck \<Rightarrow> if snd \<sigma> = [] then (None, \<sigma>) else exec_unpack call read xs \<sigma>
         | TrailingCheck \<Rightarrow>
             if snd \<sigma> \<noteq> [] then (Some errTrailingRData, \<sigma>) else exec_unpack call read xs \<sigma>
         | UnpackReturn \<Rightarrow> (None, \<sigma>)
         | _ \<Rightarrow> exec_unpack call read xs \<sigma>))"

text \<open>
  A pack routine works on the message buffer and the offset. A line written by
  \<^verbatim>\<open>o\<close> runs its primitive and returns the error if there is one; the salt template
  runs \<^verbatim>\<open>packStringHex\<close> on the value of the field under the condition it spells out.
  \<open>rr\<close> gives the value of a string field of the record.
\<close>

fun exec_pack ::
  "(stmt \<Rightarrow> bytes \<times> nat \<Rightarrow> rt_error option \<times> bytes \<times> nat) \<Rightarrow>
   (string \<Rightarrow> bytes \<times> nat \<Rightarrow> rt_error option \<times> bytes \<times> nat) \<Rightarrow>
   (string \<Rightarrow> string) \<Rightarrow> stmt list \<Rightarrow> bytes \<times> nat \<Rightarrow> rt_error option \<times> bytes \<times> nat" where
  "exec_pack call packStringHex rr [] \<sigma> = (None, \<sigma>)"
| "exec_pack call packStringHex rr (x # xs) \<sigma> =
     (case x of
        PackO s n \<Rightarrow>
          (case call x \<sigma> of
             (None, \<sigma>') \<Rightarrow> exec_pack call packStringHex rr xs \<sigma>'
           | (Some err, \<sigma>') \<Rightarrow> (Some err, \<sigma>'))
      | SaltPack n \<Rightarrow>
          if rr n \<noteq> ''-'' then
            (case packStringHex (rr n) \<sigma> of
               (None, \<sigma>') \<Rightarrow> exec_pack call packStringHex rr xs \<sigma>'
             | (Some err, \<sigma>') \<Rightarrow> (Some err, \<sigma>'))
          else exec_pack call packStringHex rr xs \<sigma>
      | PackReturn \<Rightarrow> (None, \<sigma>)
      | _ \<Rightarrow> exec_pack call packStringHex rr xs \<sigma>)"

text \<open>
  Primitives for the examples: \<open>put_byte\<close> appends a byte to the buffer and moves the
  offset on by one; \<open>take_byte\<close> and \<open>read_byte\<close> take a byte from the cursor, if there
  is one, and count it in the record. \<open>no_salt\<close> is a record whose string fields all
  hold the sentinel, \<open>some_salt\<close> one whose string fields hold a hex value.
\<close>

definition put_byte :: "'a \<Rightarrow> bytes \<times> nat \<Rightarrow> rt_error option \<times> bytes \<times> nat" where
  "put_byte x \<sigma> = (None, fst \<sigma> @ ''?'', snd \<sigma> + 1)"

definition take_byte :: "'a \<Rightarrow> nat \<times> bytes \<Rightarrow> rt_error option \<times> nat \<times> bytes" where
  "take_byte x \<sigma> =
     (if snd \<sigma> = [] then (Some (errPrimitive ''overflow''), \<sigma>) else (None, fst \<sigma> + 1, tl (snd \<sigma>)))"

definition read_byte :: "'a \<Rightarrow> nat \<times> bytes \<Rightarrow> bool \<times> nat \<times> bytes" where
  "read_byte x \<sigma> = (if snd \<sigma> = [] then (False, \<sigma>) else (True, fst \<sigma> + 1, tl (snd \<sigma>)))"

definition no_salt :: "string \<Rightarrow> string" where
  "no_salt fieldName = ''-''"

definition some_salt :: "string \<Rightarrow> string" where
  "some_salt fieldName = ''ff''"

section \<open>The closed vocabulary\<close>

text \<open>
  The annotations of the specification: the tags a sequence-shaped field may carry, the
  tags a scalar-shaped field may carry, the \<^verbatim>\<open>size-\<close> tags with one of the three
  encodings (the encoding is what \<open>structTag\<close> reads), and the empty tag on a field of
  one of the five basic types. For the empty tag the specification speaks of the
  underlying basic type of the field: that reading is \<open>stated_vocabulary\<close>, and
  \<open>in_vocabulary\<close> is the reading with the type of the field itself. \<open>pack_accepts\<close>
  and \<open>unpack_accepts\<close> are the fields on which the pack loop and the unpack loop do not
  stop the generator.
\<close>

definition sequence_annotations :: "string list" where
  \<open>sequence_annotations =
     [''dns:"-"'', ''dns:"txt"'', ''dns:"opt"'', ''dns:"nsec"'', ''dns:"pairs"'',
      ''dns:"domain-name"'', ''dns:"apl"'']\<close>

definition scalar_annotations :: "string list" where
  \<open>scalar_annotations =
     [''dns:"-"'', ''dns:"cdomain-name"'', ''dns:"domain-name"'', ''dns:"a"'', ''dns:"aaaa"'',
      ''dns:"uint48"'', ''dns:"txt"'', ''dns:"base32"'', ''dns:"base64"'', ''dns:"hex"'',
      ''dns:"any"'', ''dns:"octet"'', ''dns:"ipsechost"'', ''dns:"amtrelayhost"'']\<close>

definition size_annotation :: "string \<Rightarrow> bool" where
  \<open>size_annotation t \<longleftrightarrow>
     HasPrefix t ''dns:"size-'' \<and> structTag t \<in> {''hex'', ''base32'', ''base64''}\<close>

definition basic_codec :: "gotype \<Rightarrow> bool" where
  "basic_codec t =
     (case t of Basic k \<Rightarrow> k \<in> {Uint8, Uint16, Uint32, Uint64, String} | _ \<Rightarrow> False)"

definition in_vocabulary :: "field \<Rightarrow> bool" where
  "in_vocabulary f =
     (if is_Slice (Type f) then Tag f \<in> set sequence_annotations
      else Tag f \<in> set scalar_annotations \<or> size_annotation (Tag f)
        \<or> (Tag f = '''' \<and> basic_codec (Type f)))"

definition stated_vocabulary :: "field \<Rightarrow> bool" where
  "stated_vocabulary f =
     (if is_Slice (Type f) then Tag f \<in> set sequence_annotations
      else Tag f \<in> set scalar_annotations \<or> size_annotation (Tag f)
        \<or> (Tag f = '''' \<and> basic_codec (Underlying (Type f))))"

definition pack_accepts :: "field \<Rightarrow> bool" where
  \<open>pack_accepts f =
     (if is_Slice (Type f) then Tag f \<in> set sequence_annotations
      else Tag f \<in> set scalar_annotations
        \<or> HasPrefix (Tag f) ''dns:"size-base32'' \<or> HasPrefix (Tag f) ''dns:"size-base64''
        \<or> HasPrefix (Tag f) ''dns:"size-hex''
        \<or> (Tag f = '''' \<and> basic_codec (Type f)))\<close>

definition unpack_accepts :: "field \<Rightarrow> bool" where
  \<open>unpack_accepts f =
     (if HasPrefix (Tag f) ''dns:"size-'' then structTag (Tag f) \<in> {''hex'', ''base32'', ''base64''}
      else if is_Slice (Type f) then Tag f \<in> set sequence_annotations
      else Tag f \<in> set scalar_annotations \<or> (Tag f = '''' \<and> basic_codec (Type f)))\<close>



section \<open>The schema list\<close>

text \<open>
  A name of the scope is discovered when the first loop of \<^verbatim>\<open>main\<close> reaches its check
  of the type-code constant: the object is exported, \<open>getTypeStruct\<close> gives a struct,
  and the name is not \<^verbatim>\<open>PrivateRR\<close>. The check fails for a discovered name that has no
  constant \<^verbatim>\<open>Type<name>\<close> in the scope and is not \<^verbatim>\<open>RFC3597\<close>.
\<close>

definition discovered :: "scope \<Rightarrow> string \<Rightarrow> bool" where
  "discovered scope name =
     (case Lookup scope name of
        None \<Rightarrow> False
      | Some obj \<Rightarrow>
          Exported obj
          \<and> (case getTypeStruct (oType obj) scope of Inr (Some st, _) \<Rightarrow> True | _ \<Rightarrow> False)
          \<and> name \<noteq> ''PrivateRR'')"

definition missing_Type :: "scope \<Rightarrow> string \<Rightarrow> bool" where
  "missing_Type scope name \<longleftrightarrow>
     discovered scope name \<and> Lookup scope (''Type'' @ name) = None \<and> name \<noteq> ''RFC3597''"

text \<open>
  The schema list of the specification, a record name with the fields of its struct for
  every collected name, and the two emitters as functions of that list alone.
\<close>

type_synonym schema = "string \<times> field list"

fun lookupAll :: "scope \<Rightarrow> string list \<Rightarrow> gen_error + schema list" where
  "lookupAll scope [] = Inr []"
| "lookupAll scope (name # names) =
     (case lookupStruct scope name of
        Inl e \<Rightarrow> Inl e
      | Inr st \<Rightarrow>
          (case lookupAll scope names of
             Inl e \<Rightarrow> Inl e
           | Inr schemas \<Rightarrow> Inr ((name, st) # schemas)))"

definition extractSchemas :: "scope \<Rightarrow> gen_error + schema list" where
  "extractSchemas scope =
     (case collectTypes scope (Names scope) [] of
        Inl e \<Rightarrow> Inl e
      | Inr namedTypes \<Rightarrow> lookupAll scope namedTypes)"

fun emitPack :: "schema list \<Rightarrow> stmt list \<Rightarrow> gen_error + stmt list" where
  "emitPack [] b = Inr b"
| "emitPack ((name, st) # schemas) b =
     (case packRoutine name st b of
        Inl e \<Rightarrow> Inl e
      | Inr b' \<Rightarrow> emitPack schemas b')"

fun emitUnpack :: "schema list \<Rightarrow> stmt list \<Rightarrow> gen_error + stmt list" where
  "emitUnpack [] b = Inr b"
| "emitUnpack ((name, st) # schemas) b =
     (case unpackRoutine name st b of
        Inl e \<Rightarrow> Inl e
      | Inr b' \<Rightarrow> emitUnpack schemas b')"

definition emit :: "(string \<Rightarrow> gen_error + string) \<Rightarrow> schema list \<Rightarrow> gen_error + string" where
  "emit format_Source schemas =
     (case emitPack schemas [PackageHdr, PackComment] of
        Inl e \<Rightarrow> Inl e
      | Inr b \<Rightarrow>
          (case emitUnpack schemas (b @ [UnpackComment]) of
             Inl e \<Rightarrow> Inl e
           | Inr b' \<Rightarrow> format_Source (bufferText b')))"

section \<open>Example records and packages\<close>

text \<open>
  Types and packages for the examples. \<open>RR_Header\<close> is the header type and \<open>MX\<close> a
  record declared with the header as its first field, the fields \<open>MX_fields\<close>;
  \<open>Wrapped\<close> embeds \<open>MX\<close>, and \<open>Question\<close> starts with another field. \<open>Example\<close> is
  the scenario of the specification: a 16-bit integer, a sequence of strings tagged
  \<^verbatim>\<open>txt\<close> and a string tagged \<^verbatim>\<open>hex\<close> after the header. \<open>IPSECKEY\<close>, \<open>NSEC3\<close>, \<open>TKEY\<close> and \<open>DS\<close> have the
  fields and tags of the records of these names in the DNS library. \<open>Base32Salt\<close>,
  \<open>Relay\<close>, \<open>Bad\<close> and \<open>Coded\<close> are made up: a base32 blob whose length field is
  called \<open>SaltLength\<close>, a gateway field under another name, fields outside the
  vocabulary, and a field without a tag whose type is a named type declared as
  \<^verbatim>\<open>uint16\<close>. The packages differ in what they declare besides the header: \<open>pkg\<close> a
  record with its type-code constant, \<open>pkg_embed\<close> the record and the type that
  embeds it, each with its constant, \<open>pkg_shuffled\<close> the objects of \<open>pkg_embed\<close> in
  another order, \<open>pkg_bad\<close> the record \<open>Bad\<close>, \<open>pkg_noType\<close> a record without its
  constant, and \<open>pkg_legacy\<close> the record \<open>RFC3597\<close> without a constant.
\<close>

definition RR_Header :: gotype where
  \<open>RR_Header = Named ''RR_Header''
     (Struct [Field ''Name'' (Basic String) False ''dns:"cdomain-name"'',
              Field ''Rrtype'' (Basic Uint16) False '''',
              Field ''Rdlength'' (Basic Uint16) False ''dns:"-"''])\<close>

definition MX :: gotype where
  \<open>MX = Named ''MX''
     (Struct [Field ''Hdr'' RR_Header False '''',
              Field ''Preference'' (Basic Uint16) False '''',
              Field ''Mx'' (Basic String) False ''dns:"cdomain-name"''])\<close>

definition MX_fields :: "field list" where
  \<open>MX_fields =
     [Field ''Hdr'' RR_Header False '''',
      Field ''Preference'' (Basic Uint16) False '''',
      Field ''Mx'' (Basic String) False ''dns:"cdomain-name"'']\<close>

definition Wrapped :: gotype where
  "Wrapped = Named ''Wrapped'' (Struct [Field ''MX'' MX True ''''])"

definition Question :: gotype where
  \<open>Question = Named ''Question''
     (Struct [Field ''Name'' (Basic String) False ''dns:"cdomain-name"'',
              Field ''Qtype'' (Basic Uint16) False ''''])\<close>

definition pkg :: scope where
  "pkg = [Object ''MX'' True MX, Object ''Question'' True Question,
          Object ''RR_Header'' True RR_Header, Object ''TypeMX'' True (Basic Uint16)]"

definition Example :: "field list" where
  \<open>Example =
     [Field ''Hdr'' RR_Header False '''',
      Field ''A'' (Basic Uint16) False '''',
      Field ''B'' (Slice (Basic String)) False ''dns:"txt"'',
      Field ''C'' (Basic String) False ''dns:"hex"'']\<close>

definition IPSECKEY :: "field list" where
  \<open>IPSECKEY =
     [Field ''Hdr'' RR_Header False '''',
      Field ''Precedence'' (Basic Uint8) False '''',
      Field ''GatewayType'' (Basic Uint8) False '''',
      Field ''Algorithm'' (Basic Uint8) False '''',
      Field ''GatewayAddr'' (Named ''net.IP'' (Slice (Basic Uint8))) False ''dns:"-"'',
      Field ''GatewayHost'' (Basic String) False ''dns:"ipsechost"'',
      Field ''PublicKey'' (Basic String) False ''dns:"base64"'']\<close>

definition NSEC3 :: "field list" where
  \<open>NSEC3 =
     [Field ''Hdr'' RR_Header False '''',
      Field ''Hash'' (Basic Uint8) False '''',
      Field ''Flags'' (Basic Uint8) False '''',
      Field ''Iterations'' (Basic Uint16) False '''',
      Field ''SaltLength'' (Basic Uint8) False '''',
      Field ''Salt'' (Basic String) False ''dns:"size-hex:SaltLength"'',
      Field ''HashLength'' (Basic Uint8) False '''',
      Field ''NextDomain'' (Basic String) False ''dns:"size-base32:HashLength"'',
      Field ''TypeBitMap'' (Slice (Basic Uint16)) False ''dns:"nsec"'']\<close>



definition Base32Salt :: "field list" where
  \<open>Base32Salt =
     [Field ''Hdr'' RR_Header False '''',
      Field ''SaltLength'' (Basic Uint8) False '''',
      Field ''Salt'' (Basic String) False ''dns:"size-base32:SaltLength"'']\<close>


definition Bad :: "field list" where
  \<open>Bad =
     [Field ''Hdr'' RR_Header False '''',
      Field ''X'' (Basic String) False ''dns:"bogus"'',
      Field ''Y'' (Basic Bool) False '''',
      Field ''Z'' (Basic String) False ''dns:"size-octal:X"'']\<close>

definition Coded :: "field list" where
  "Coded =
     [Field ''Hdr'' RR_Header False '''',
      Field ''Code'' (Named ''Rcode'' (Basic Uint16)) False '''']"

definition pkg_embed :: scope where
  "pkg_embed = [Object ''MX'' True MX, Object ''RR_Header'' True RR_Header,
                Object ''TypeMX'' True (Basic Uint16), Object ''TypeWrapped'' True (Basic Uint16),
                Object ''Wrapped'' True Wrapped]"

definition pkg_shuffled :: scope where
  "pkg_shuffled = [Object ''Wrapped'' True Wrapped, Object ''TypeMX'' True (Basic Uint16),
                   Object ''MX'' True MX, Object ''TypeWrapped'' True (Basic Uint16),
                   Object ''RR_Header'' True RR_Header]"

definition pkg_bad :: scope where
  "pkg_bad = [Object ''Bad'' True (Named ''Bad'' (Struct Bad)), Object ''RR_Header'' True RR_Header,
              Object ''TypeBad'' True (Basic Uint16)]"

definition pkg_noType :: scope where
  "pkg_noType = [Object ''MX'' True MX, Object ''RR_Header'' True RR_Header]"

definition pkg_legacy :: scope where
  \<open>pkg_legacy =
     [Object ''RFC3597'' True
        (Named ''RFC3597''
           (Struct [Field ''Hdr'' RR_Header False '''',
                    Field ''Rdata'' (Basic String) False ''dns:"hex"''])),
      Object ''RR_Header'' True RR_Header]\<close>

section \<open>Which types are records\<close>

lemma same_type_Named: "same_type t (Named n u) \<longleftrightarrow> t = Named n u"
  by (auto simp add: same_type_def)

lemma getTypeStruct_no_error:
  "Lookup scope ''RR_Header'' = Some h \<Longrightarrow> \<exists>r. getTypeStruct t scope = Inr r"
proof (induction t scope rule: getTypeStruct.induct)
  case (1 t scope)
  show ?case
  proof (cases "Underlying t")
    case (Struct st)
    show ?thesis
    proof (cases "length st \<noteq> 0 \<and> \<not> same_type (Type (st ! 0)) (oType h) \<and> Anonymous (st ! 0)")
      case True
      with 1 Struct obtain r where "getTypeStruct (Type (st ! 0)) scope = Inr r" by blast
      with True Struct 1(2) show ?thesis
        by (subst getTypeStruct.simps) (auto split: prod.splits)
    next
      case False
      with Struct 1(2) show ?thesis
        by (subst getTypeStruct.simps) auto
    qed
  qed (subst getTypeStruct.simps, auto)+
qed

lemma getTypeStruct_resolves:
  assumes h: "Lookup scope ''RR_Header'' = Some h" and n: "oType h = Named hn hu"
  shows "(\<exists>b. getTypeStruct t scope = Inr (Some st, b)) \<longleftrightarrow> resolves_to (oType h) t st"
proof
  assume "\<exists>b. getTypeStruct t scope = Inr (Some st, b)"
  then show "resolves_to (oType h) t st" using h
  proof (induction t scope rule: getTypeStruct.induct)
    case (1 t scope)
    from 1(2) obtain b where r: "getTypeStruct t scope = Inr (Some st, b)" by blast
    show ?case
    proof (cases "Underlying t")
      case (Struct fs)
      from r Struct have ne: "fs \<noteq> []"
        by (subst (asm) getTypeStruct.simps) (auto split: if_splits)
      show ?thesis
      proof (cases "Type (fs ! 0) = oType h")
        case True
        with r Struct ne 1(3) n have "st = fs"
          by (subst (asm) getTypeStruct.simps) (simp add: same_type_Named)
        with Struct ne True show ?thesis by (simp add: resolves_to.here)
      next
        case False
        then have ns: "\<not> same_type (Type (fs ! 0)) (oType h)" by (simp add: same_type_def)
        with r Struct ne 1(3) have an: "Anonymous (fs ! 0)"
          and "\<exists>b. getTypeStruct (Type (fs ! 0)) scope = Inr (Some st, b)"
          by (subst (asm) getTypeStruct.simps, auto split: if_splits sum.splits prod.splits)+
        with 1(1) [OF Struct _ 1(3) ns] ne 1(3) have "resolves_to (oType h) (Type (fs ! 0)) st"
          by simp
        with Struct ne False an show ?thesis by (rule resolves_to.inside)
      qed
    qed (use r in \<open>subst (asm) getTypeStruct.simps, simp\<close>)+
  qed
next
  assume "resolves_to (oType h) t st"
  then show "\<exists>b. getTypeStruct t scope = Inr (Some st, b)"
  proof (induction rule: resolves_to.induct)
    case (here t st)
    then show ?case using h n by (subst getTypeStruct.simps) (auto simp add: same_type_Named)
  next
    case (inside t st' st)
    then show ?case using h n by (subst getTypeStruct.simps) (auto simp add: same_type_Named)
  qed
qed

lemma resolves_to_header:
  "resolves_to hdr t st \<Longrightarrow> st \<noteq> [] \<and> Type (st ! 0) = hdr"
  by (induction rule: resolves_to.induct) simp_all

lemma resolves_to_unique:
  "resolves_to hdr t st \<Longrightarrow> resolves_to hdr t st' \<Longrightarrow> st = st'"
proof (induction arbitrary: st' rule: resolves_to.induct)
  case (here t st)
  from here(4) here(1-3) show ?case by (cases rule: resolves_to.cases) auto
next
  case (inside t fs st)
  from inside(7) inside(1-4) have "resolves_to hdr (Type (fs ! 0)) st'"
    by (cases rule: resolves_to.cases) auto
  then show ?case by (rule inside(6))
qed

lemma is_record_resolves: "is_record hdr t \<longleftrightarrow> (\<exists>st. resolves_to hdr t st)"
proof
  assume "is_record hdr t"
  then show "\<exists>st. resolves_to hdr t st"
  proof (induction rule: is_record.induct)
    case (direct t st)
    then show ?case by (auto intro: resolves_to.here)
  next
    case (embedded t st)
    then obtain st' where r: "resolves_to hdr (Type (st ! 0)) st'" by blast
    show ?case
    proof (cases "Type (st ! 0) = hdr")
      case True
      with embedded show ?thesis by (auto intro: resolves_to.here)
    next
      case False
      with embedded r show ?thesis by (auto intro: resolves_to.inside)
    qed
  qed
next
  assume "\<exists>st. resolves_to hdr t st"
  then obtain st where "resolves_to hdr t st" ..
  then show "is_record hdr t"
    by (induction rule: resolves_to.induct) (auto intro: is_record.intros)
qed

lemma getTypeStruct_is_record:
  assumes h: "Lookup scope ''RR_Header'' = Some h" and n: "oType h = Named hn hu"
  shows "(\<exists>st b. getTypeStruct t scope = Inr (Some st, b)) \<longleftrightarrow> is_record (oType h) t"
  using getTypeStruct_resolves [OF h n, of t] by (auto simp add: is_record_resolves)

lemma getTypeStruct_not_struct:
  "\<forall>st. Underlying t \<noteq> Struct st \<Longrightarrow> getTypeStruct t scope = Inr (None, False)"
  by (subst getTypeStruct.simps) (cases "Underlying t"; simp)

lemma getTypeStruct_no_fields:
  "Underlying t = Struct [] \<Longrightarrow> getTypeStruct t scope = Inr (None, False)"
  by (subst getTypeStruct.simps) simp

lemma getTypeStruct_other_first_field:
  "Lookup scope ''RR_Header'' = Some h \<Longrightarrow> Underlying t = Struct st \<Longrightarrow> st \<noteq> [] \<Longrightarrow>
   Type (st ! 0) \<noteq> oType h \<Longrightarrow> \<not> Anonymous (st ! 0) \<Longrightarrow>
   getTypeStruct t scope = Inr (None, False)"
  by (subst getTypeStruct.simps) (simp add: same_type_def)

text \<open>
  C7. With the header declared in the scope as a named type, \<open>getTypeStruct\<close> returns
  normally on every type, and it returns a struct exactly for the types that are records
  by the rule of the specification: the underlying type is a struct with at least one
  field, and the first field has the header type, or is embedded and has a record type,
  to any depth. A type whose underlying type is no struct, a struct without fields, and
  a struct whose first field is neither of the header type nor embedded give no struct.
\<close>

theorem getTypeStruct_classifies:
  assumes "Lookup scope ''RR_Header'' = Some h" and "oType h = Named hn hu"
  shows "(\<exists>r. getTypeStruct t scope = Inr r)
    \<and> ((\<exists>st b. getTypeStruct t scope = Inr (Some st, b)) \<longleftrightarrow> is_record (oType h) t)
    \<and> ((\<forall>st. Underlying t \<noteq> Struct st) \<longrightarrow> getTypeStruct t scope = Inr (None, False))
    \<and> (Underlying t = Struct [] \<longrightarrow> getTypeStruct t scope = Inr (None, False))
    \<and> (\<forall>st. Underlying t = Struct st \<and> st \<noteq> [] \<and> Type (st ! 0) \<noteq> oType h
           \<and> \<not> Anonymous (st ! 0) \<longrightarrow> getTypeStruct t scope = Inr (None, False))"
  using assms getTypeStruct_no_error [OF assms(1)] getTypeStruct_is_record [OF assms]
    getTypeStruct_not_struct getTypeStruct_no_fields
    getTypeStruct_other_first_field [OF assms(1)]
  by blast

theorem getTypeStruct_classifies_witness:
  "Lookup pkg ''RR_Header'' = Some (Object ''RR_Header'' True RR_Header)
   \<and> is_Named RR_Header
   \<and> is_record RR_Header Wrapped
   \<and> \<not> is_record RR_Header Question
   \<and> \<not> is_record RR_Header (Slice MX)"
proof -
  have h: "Lookup pkg ''RR_Header'' = Some (Object ''RR_Header'' True RR_Header)"
    by (simp add: pkg_def Lookup_def)
  obtain hu where n: "oType (Object ''RR_Header'' True RR_Header) = Named ''RR_Header'' hu"
    by (simp add: RR_Header_def)
  have ne: "MX \<noteq> RR_Header" "Basic String \<noteq> RR_Header"
    by (simp_all add: MX_def RR_Header_def)
  have hd: "same_type RR_Header RR_Header"
    by (simp add: same_type_def RR_Header_def)
  have m: "\<exists>st. getTypeStruct MX pkg = Inr (Some st, False)"
    by (subst getTypeStruct.simps) (simp add: h MX_def hd)
  then obtain st where "getTypeStruct MX pkg = Inr (Some st, False)" ..
  then have w: "getTypeStruct Wrapped pkg = Inr (Some st, True)"
    by (subst getTypeStruct.simps) (simp add: h Wrapped_def ne same_type_def)
  have q: "getTypeStruct Question pkg = Inr (None, False)"
    by (subst getTypeStruct.simps) (simp add: h Question_def ne same_type_def)
  have s: "getTypeStruct (Slice MX) pkg = Inr (None, False)"
    by (subst getTypeStruct.simps) simp
  have "is_Named RR_Header" by (simp add: RR_Header_def)
  with getTypeStruct_classifies [OF h n, of Wrapped] w
    getTypeStruct_classifies [OF h n, of Question] q
    getTypeStruct_classifies [OF h n, of "Slice MX"] s h
  show ?thesis by auto
qed

section \<open>The routines generated for the examples\<close>

lemmas eval_defs = packRoutine_def unpackRoutine_def packLoop.simps unpackLoop.simps
  packLoopBody_def unpackLoopBody_def unpackSwitch_def HasPrefix_def structMember_def structTag_def
  TrimPrefix_def TrimSuffix_def suffix_to_prefix LastIndex_def Cut_before_def Let_def

lemma Example_unpackRoutine:
  "unpackRoutine ''Example'' Example [] =
     Inr [UnpackFunc ''Example'', CursorInit,
          ReadInt ''Uint16'' ''A'', EmptyCheck,
          UnpackField ''B'' ''unpackStringTxt'',
          UnpackFieldRest ''C'' ''unpackStringHex'',
          TrailingCheck, UnpackReturn]"
  by (simp add: eval_defs Example_def)

lemma Example_packRoutine:
  "packRoutine ''Example'' Example [] =
     Inr [PackFunc ''Example'',
          PackO ''off, err = packUint16(rr.%s, msg, off)\<newline>'' ''A'',
          PackO ''off, err = packStringTxt(rr.%s, msg, off)\<newline>'' ''B'',
          PackO ''off, err = packStringHex(rr.%s, msg, off)\<newline>'' ''C'',
          PackReturn]"
  by (simp add: eval_defs Example_def)

lemma IPSECKEY_packRoutine:
  "packRoutine ''IPSECKEY'' IPSECKEY [] =
     Inr [PackFunc ''IPSECKEY'',
          PackO ''off, err = packUint8(rr.%s, msg, off)\<newline>'' ''Precedence'',
          PackO ''off, err = packUint8(rr.%s, msg, off)\<newline>'' ''GatewayType'',
          PackO ''off, err = packUint8(rr.%s, msg, off)\<newline>'' ''Algorithm'',
          PackO ''off, err = packIPSECGateway(rr.GatewayAddr, rr.%s, msg, off, rr.GatewayType, compression, false)\<newline>'' ''GatewayHost'',
          PackO ''off, err = packStringBase64(rr.%s, msg, off)\<newline>'' ''PublicKey'',
          PackReturn]"
  by (simp add: eval_defs IPSECKEY_def)

lemma IPSECKEY_unpackRoutine:
  "unpackRoutine ''IPSECKEY'' IPSECKEY [] =
     Inr [UnpackFunc ''IPSECKEY'', CursorInit,
          ReadInt ''Uint8'' ''Precedence'', EmptyCheck,
          ReadInt ''Uint8'' ''GatewayType'', EmptyCheck,
          ReadInt ''Uint8'' ''Algorithm'', EmptyCheck,
          UnpackGateway, EmptyCheck,
          UnpackFieldRest ''PublicKey'' ''unpackStringBase64'',
          TrailingCheck, UnpackReturn]"
  by (simp add: eval_defs IPSECKEY_def)

lemma NSEC3_packRoutine:
  "packRoutine ''NSEC3'' NSEC3 [] =
     Inr [PackFunc ''NSEC3'',
          PackO ''off, err = packUint8(rr.%s, msg, off)\<newline>'' ''Hash'',
          PackO ''off, err = packUint8(rr.%s, msg, off)\<newline>'' ''Flags'',
          PackO ''off, err = packUint16(rr.%s, msg, off)\<newline>'' ''Iterations'',
          PackO ''off, err = packUint8(rr.%s, msg, off)\<newline>'' ''SaltLength'',
          SaltPack ''Salt'',
          PackO ''off, err = packUint8(rr.%s, msg, off)\<newline>'' ''HashLength'',
          PackO ''off, err = packStringBase32(rr.%s, msg, off)\<newline>'' ''NextDomain'',
          PackO ''off, err = packDataNsec(rr.%s, msg, off)\<newline>'' ''TypeBitMap'',
          PackReturn]"
  by (simp add: eval_defs NSEC3_def)

lemma NSEC3_unpackRoutine:
  "unpackRoutine ''NSEC3'' NSEC3 [] =
     Inr [UnpackFunc ''NSEC3'', CursorInit,
          ReadInt ''Uint8'' ''Hash'', EmptyCheck,
          ReadInt ''Uint8'' ''Flags'', EmptyCheck,
          ReadInt ''Uint16'' ''Iterations'', EmptyCheck,
          ReadInt ''Uint8'' ''SaltLength'', EmptyCheck,
          UnpackFieldLength ''Salt'' ''unpackStringHex'' ''SaltLength'',
          ReadInt ''Uint8'' ''HashLength'', EmptyCheck,
          UnpackFieldLength ''NextDomain'' ''unpackStringBase32'' ''HashLength'',
          UnpackField ''TypeBitMap'' ''unpackDataNsec'',
          TrailingCheck, UnpackReturn]"
  by (simp add: eval_defs NSEC3_def)

section \<open>The number of steps\<close>

lemma packLoopBody_shape:
  assumes "packLoopBody name st i = Inr ss"
  shows "(Tag (st ! i) = ignored \<and> ss = []) \<or>
         (Tag (st ! i) \<noteq> ignored \<and> (\<exists>x. ss = [x] \<and> is_pack_step x))"
  using assms unfolding packLoopBody_def Let_def ignored_def
  by (auto simp: is_pack_step_def HasPrefix_def split: if_splits gotype.splits)

lemma unpackSwitch_shape:
  assumes "unpackSwitch name f = Inr ss"
  shows "\<exists>x. ss = [x] \<and> is_unpack_step x"
  using assms unfolding unpackSwitch_def Let_def
  by (auto simp: is_unpack_step_def split: if_splits gotype.splits)

lemma unpackLoopBody_shape:
  assumes "unpackLoopBody name st i = Inr ss"
  shows "(Tag (st ! i) = ignored \<and> ss = []) \<or>
         (Tag (st ! i) \<noteq> ignored \<and> (\<exists>x. is_unpack_step x \<and> (ss = [x] \<or> ss = [x, EmptyCheck])))"
  using assms unpackSwitch_shape [of name "st ! i"] unfolding unpackLoopBody_def Let_def ignored_def
  by (auto simp: is_unpack_step_def HasPrefix_def split: if_splits sum.splits)

lemma packLoop_steps:
  "packLoop name st i b = Inr b' \<Longrightarrow>
   \<exists>ss. b' = b @ ss \<and> list_all is_pack_step ss
     \<and> length ss = length (filter (\<lambda>f. Tag f \<noteq> ignored) (drop i st))"
proof (induction name st i b rule: packLoop.induct)
  case (1 name st i b)
  show ?case
  proof (cases "i < length st")
    case False
    with 1(2) show ?thesis by (simp add: packLoop.simps [of name st i b])
  next
    case True
    with 1(2) obtain s1 where body: "packLoopBody name st i = Inr s1"
      and rest: "packLoop name st (i + 1) (b @ s1) = Inr b'"
      by (auto simp: packLoop.simps [of name st i b] split: sum.splits)
    from 1(1) [OF True body rest] obtain ss where ss: "b' = (b @ s1) @ ss"
      "list_all is_pack_step ss"
      "length ss = length (filter (\<lambda>f. Tag f \<noteq> ignored) (drop (i + 1) st))" by blast
    have d: "drop i st = st ! i # drop (i + 1) st"
      using True by (simp add: Cons_nth_drop_Suc)
    from packLoopBody_shape [OF body] ss d show ?thesis
      by (intro exI [of _ "s1 @ ss"]) auto
  qed
qed

lemma unpackLoop_steps:
  "unpackLoop name st i b = Inr b' \<Longrightarrow>
   \<exists>ss. b' = b @ ss \<and> list_all (\<lambda>x. is_unpack_step x \<or> x = EmptyCheck) ss
     \<and> length (filter is_unpack_step ss) = length (filter (\<lambda>f. Tag f \<noteq> ignored) (drop i st))"
proof (induction name st i b rule: unpackLoop.induct)
  case (1 name st i b)
  show ?case
  proof (cases "i < length st")
    case False
    with 1(2) show ?thesis by (simp add: unpackLoop.simps [of name st i b])
  next
    case True
    with 1(2) obtain s1 where body: "unpackLoopBody name st i = Inr s1"
      and rest: "unpackLoop name st (i + 1) (b @ s1) = Inr b'"
      by (auto simp: unpackLoop.simps [of name st i b] split: sum.splits)
    from 1(1) [OF True body rest] obtain ss where ss: "b' = (b @ s1) @ ss"
      "list_all (\<lambda>x. is_unpack_step x \<or> x = EmptyCheck) ss"
      "length (filter is_unpack_step ss) = length (filter (\<lambda>f. Tag f \<noteq> ignored) (drop (i + 1) st))"
      by blast
    have d: "drop i st = st ! i # drop (i + 1) st"
      using True by (simp add: Cons_nth_drop_Suc)
    have e: "\<not> is_unpack_step EmptyCheck" by (simp add: is_unpack_step_def)
    from unpackLoopBody_shape [OF body] ss d e show ?thesis
      by (intro exI [of _ "s1 @ ss"]) auto
  qed
qed

lemma packLoopBody_header:
  "0 < i \<Longrightarrow> packLoopBody name (h # fs) i = packLoopBody name (h' # fs) i"
  by (cases i) (simp_all add: packLoopBody_def)

lemma unpackLoopBody_header:
  "0 < i \<Longrightarrow> unpackLoopBody name (h # fs) i = unpackLoopBody name (h' # fs) i"
  by (cases i) (simp_all add: unpackLoopBody_def)

lemma packLoop_header:
  "0 < i \<Longrightarrow> packLoop name (h # fs) i b = packLoop name (h' # fs) i b"
proof (induction name "h # fs" i b rule: packLoop.induct)
  case (1 name i b)
  show ?case
  proof (cases "i < length (h # fs)")
    case False
    then show ?thesis
      by (simp add: packLoop.simps [of name "h # fs" i b] packLoop.simps [of name "h' # fs" i b])
  next
    case True
    show ?thesis
    proof (cases "packLoopBody name (h # fs) i")
      case (Inl e)
      with True 1(2) show ?thesis
        using packLoopBody_header [of i name h fs h']
        by (simp add: packLoop.simps [of name "h # fs" i b] packLoop.simps [of name "h' # fs" i b])
    next
      case (Inr s1)
      from 1(1) [OF True Inr] have "packLoop name (h # fs) (i + 1) (b @ s1) = packLoop name (h' # fs) (i + 1) (b @ s1)"
        by simp
      with True Inr 1(2) show ?thesis
        using packLoopBody_header [of i name h fs h']
        by (simp add: packLoop.simps [of name "h # fs" i b] packLoop.simps [of name "h' # fs" i b])
    qed
  qed
qed

lemma unpackLoop_header:
  "0 < i \<Longrightarrow> unpackLoop name (h # fs) i b = unpackLoop name (h' # fs) i b"
proof (induction name "h # fs" i b rule: unpackLoop.induct)
  case (1 name i b)
  show ?case
  proof (cases "i < length (h # fs)")
    case False
    then show ?thesis
      by (simp add: unpackLoop.simps [of name "h # fs" i b] unpackLoop.simps [of name "h' # fs" i b])
  next
    case True
    show ?thesis
    proof (cases "unpackLoopBody name (h # fs) i")
      case (Inl e)
      with True 1(2) show ?thesis
        using unpackLoopBody_header [of i name h fs h']
        by (simp add: unpackLoop.simps [of name "h # fs" i b] unpackLoop.simps [of name "h' # fs" i b])
    next
      case (Inr s1)
      from 1(1) [OF True Inr] have "unpackLoop name (h # fs) (i + 1) (b @ s1) = unpackLoop name (h' # fs) (i + 1) (b @ s1)"
        by simp
      with True Inr 1(2) show ?thesis
        using unpackLoopBody_header [of i name h fs h']
        by (simp add: unpackLoop.simps [of name "h # fs" i b] unpackLoop.simps [of name "h' # fs" i b])
    qed
  qed
qed

lemma packRoutine_steps:
  assumes "packRoutine name st b = Inr b'"
  shows "\<exists>ss. b' = b @ [PackFunc name] @ ss @ [PackReturn] \<and> list_all is_pack_step ss
     \<and> length ss = length (filter (\<lambda>f. Tag f \<noteq> ignored) (drop 1 st))"
proof -
  from assms obtain b1 where l: "packLoop name st 1 (b @ [PackFunc name]) = Inr b1"
    and b': "b' = b1 @ [PackReturn]"
    by (auto simp: packRoutine_def split: sum.splits)
  from packLoop_steps [OF l] b' show ?thesis by auto
qed

lemma unpackRoutine_steps:
  assumes "unpackRoutine name st b = Inr b'"
  shows "\<exists>ss. b' = b @ [UnpackFunc name, CursorInit] @ ss @ [TrailingCheck, UnpackReturn]
     \<and> list_all (\<lambda>x. is_unpack_step x \<or> x = EmptyCheck) ss
     \<and> length (filter is_unpack_step ss) = length (filter (\<lambda>f. Tag f \<noteq> ignored) (drop 1 st))"
proof -
  from assms obtain b1 where l: "unpackLoop name st 1 (b @ [UnpackFunc name, CursorInit]) = Inr b1"
    and b': "b' = b1 @ [TrailingCheck, UnpackReturn]"
    by (auto simp: unpackRoutine_def split: sum.splits)
  from unpackLoop_steps [OF l] b' show ?thesis by auto
qed

lemma lookupStruct_resolves:
  assumes h: "Lookup scope ''RR_Header'' = Some h" and n: "oType h = Named hn hu"
  shows "lookupStruct scope name = Inr st
    \<longleftrightarrow> (\<exists>obj. Lookup scope name = Some obj \<and> resolves_to (oType h) (oType obj) st)"
proof (cases "Lookup scope name")
  case None
  then show ?thesis by (simp add: lookupStruct_def)
next
  case (Some obj)
  from getTypeStruct_no_error [OF h, of "oType obj"] obtain r b
    where g: "getTypeStruct (oType obj) scope = Inr (r, b)" by force
  show ?thesis
  proof (cases r)
    case None
    with g getTypeStruct_resolves [OF h n, of "oType obj" st] Some show ?thesis
      by (simp add: lookupStruct_def)
  next
    case (Some st')
    with g getTypeStruct_resolves [OF h n, of "oType obj" st] \<open>Lookup scope name = Some obj\<close>
    show ?thesis by (auto simp add: lookupStruct_def)
  qed
qed

lemma packAll_single:
  "lookupStruct scope name = Inr st \<Longrightarrow> packAll scope [name] b = packRoutine name st b"
  by (simp split: sum.splits)

lemma unpackAll_single:
  "lookupStruct scope name = Inr st \<Longrightarrow> unpackAll scope [name] b = unpackRoutine name st b"
  by (simp split: sum.splits)

lemma packAll_Cons:
  "packAll scope (name # names) b
     = (case packAll scope [name] b of Inl e \<Rightarrow> Inl e | Inr b' \<Rightarrow> packAll scope names b')"
proof (cases "lookupStruct scope name")
  case (Inl e)
  then show ?thesis by simp
next
  case (Inr st)
  then show ?thesis by (cases "packRoutine name st b") simp_all
qed

lemma unpackAll_Cons:
  "unpackAll scope (name # names) b
     = (case unpackAll scope [name] b of Inl e \<Rightarrow> Inl e | Inr b' \<Rightarrow> unpackAll scope names b')"
proof (cases "lookupStruct scope name")
  case (Inl e)
  then show ?thesis by simp
next
  case (Inr st)
  then show ?thesis by (cases "unpackRoutine name st b") simp_all
qed

text \<open>
  C6. Let the header be declared in the scope as a named type. The struct that the two
  emitting loops of \<^verbatim>\<open>main\<close> get for a name is the one \<open>getTypeStruct\<close> resolves the
  object's type to: the struct of the type itself or, through embedded first fields, the
  struct inside whose first field has the header type. With that struct \<open>st\<close>, the
  iteration of the pack loop for the name, when the generator gets through it, appends
  the function header, one pack step for every field of \<open>st\<close> after the first whose tag
  is not the ignored one, and the return; the iteration of the unpack loop appends one
  unpack step for each of the same fields, between its header and its two closing lines,
  and besides these steps only checks of \<^verbatim>\<open>s.Empty()\<close>. The first field is left out by
  its position: both routines stay the same when any other field is put in its place.
  Each loop of \<^verbatim>\<open>main\<close> is such an iteration for the first name, followed by the loop
  over the other names.
\<close>

theorem step_counts:
  assumes "Lookup scope ''RR_Header'' = Some h" and "oType h = Named hn hu"
  shows "(lookupStruct scope name = Inr st
            \<longleftrightarrow> (\<exists>obj. Lookup scope name = Some obj \<and> resolves_to (oType h) (oType obj) st))
   \<and> (lookupStruct scope name = Inr st \<longrightarrow>
        st \<noteq> [] \<and> Type (st ! 0) = oType h
      \<and> (packAll scope [name] b = Inr bp \<longrightarrow>
          (\<exists>ss. bp = b @ [PackFunc name] @ ss @ [PackReturn] \<and> list_all is_pack_step ss
             \<and> length ss = length (filter (\<lambda>f. Tag f \<noteq> ignored) (drop 1 st))))
      \<and> (unpackAll scope [name] b = Inr bu \<longrightarrow>
          (\<exists>ss. bu = b @ [UnpackFunc name, CursorInit] @ ss @ [TrailingCheck, UnpackReturn]
             \<and> list_all (\<lambda>x. is_unpack_step x \<or> x = EmptyCheck) ss
             \<and> length (filter is_unpack_step ss)
                 = length (filter (\<lambda>f. Tag f \<noteq> ignored) (drop 1 st))))
      \<and> packAll scope [name] b = packRoutine name (x # tl st) b
      \<and> unpackAll scope [name] b = unpackRoutine name (x # tl st) b)
   \<and> packAll scope (name # names) b
       = (case packAll scope [name] b of Inl e \<Rightarrow> Inl e | Inr b' \<Rightarrow> packAll scope names b')
   \<and> unpackAll scope (name # names) b
       = (case unpackAll scope [name] b of Inl e \<Rightarrow> Inl e | Inr b' \<Rightarrow> unpackAll scope names b')"
proof (intro conjI impI)
  show "packAll scope (name # names) b
       = (case packAll scope [name] b of Inl e \<Rightarrow> Inl e | Inr b' \<Rightarrow> packAll scope names b')"
    by (rule packAll_Cons)
  show "unpackAll scope (name # names) b
       = (case unpackAll scope [name] b of Inl e \<Rightarrow> Inl e | Inr b' \<Rightarrow> unpackAll scope names b')"
    by (rule unpackAll_Cons)
next
  show "lookupStruct scope name = Inr st
    \<longleftrightarrow> (\<exists>obj. Lookup scope name = Some obj \<and> resolves_to (oType h) (oType obj) st)"
    by (rule lookupStruct_resolves [OF assms])
next
  assume l: "lookupStruct scope name = Inr st"
  with lookupStruct_resolves [OF assms, of name st] resolves_to_header [of "oType h" _ st]
  show ne: "st \<noteq> []" and "Type (st ! 0) = oType h" by blast+
  then obtain f fs where c: "st = f # fs" by (cases st) auto
  have "packRoutine name (f # fs) b = packRoutine name (x # fs) b"
    using packLoop_header [of 1 name f fs _ x] by (simp add: packRoutine_def)
  with c packAll_single [OF l, of b]
  show "packAll scope [name] b = packRoutine name (x # tl st) b" by simp
  have "unpackRoutine name (f # fs) b = unpackRoutine name (x # fs) b"
    using unpackLoop_header [of 1 name f fs _ x] by (simp add: unpackRoutine_def)
  with c unpackAll_single [OF l, of b]
  show "unpackAll scope [name] b = unpackRoutine name (x # tl st) b" by simp
next
  assume l: "lookupStruct scope name = Inr st" and "packAll scope [name] b = Inr bp"
  with packAll_single [of scope name st b] have "packRoutine name st b = Inr bp" by simp
  then show "\<exists>ss. bp = b @ [PackFunc name] @ ss @ [PackReturn] \<and> list_all is_pack_step ss
     \<and> length ss = length (filter (\<lambda>f. Tag f \<noteq> ignored) (drop 1 st))"
    by (rule packRoutine_steps)
next
  assume l: "lookupStruct scope name = Inr st" and "unpackAll scope [name] b = Inr bu"
  with unpackAll_single [of scope name st b] have "unpackRoutine name st b = Inr bu" by simp
  then show "\<exists>ss. bu = b @ [UnpackFunc name, CursorInit] @ ss @ [TrailingCheck, UnpackReturn]
     \<and> list_all (\<lambda>x. is_unpack_step x \<or> x = EmptyCheck) ss
     \<and> length (filter is_unpack_step ss) = length (filter (\<lambda>f. Tag f \<noteq> ignored) (drop 1 st))"
    by (rule unpackRoutine_steps)
qed

lemma pkg_embed_header:
  "Lookup pkg_embed ''RR_Header'' = Some (Object ''RR_Header'' True RR_Header)"
  by (simp add: pkg_embed_def Lookup_def)

lemma pkg_embed_Wrapped: "lookupStruct pkg_embed ''Wrapped'' = Inr MX_fields"
proof -
  have ne: "MX \<noteq> RR_Header" by (simp add: MX_def RR_Header_def)
  have hd: "same_type RR_Header RR_Header" by (simp add: same_type_def RR_Header_def)
  have m: "getTypeStruct MX pkg_embed = Inr (Some MX_fields, False)"
    by (subst getTypeStruct.simps) (simp add: pkg_embed_header MX_def MX_fields_def hd)
  have w: "getTypeStruct Wrapped pkg_embed = Inr (Some MX_fields, True)"
    by (subst getTypeStruct.simps) (simp add: pkg_embed_header Wrapped_def ne same_type_def m)
  have "Lookup pkg_embed ''Wrapped'' = Some (Object ''Wrapped'' True Wrapped)"
    by (simp add: pkg_embed_def Lookup_def)
  with w show ?thesis by (simp add: lookupStruct_def)
qed

lemma MX_fields_packRoutine:
  "packRoutine ''Wrapped'' MX_fields [] =
     Inr [PackFunc ''Wrapped'',
          PackO ''off, err = packUint16(rr.%s, msg, off)\<newline>'' ''Preference'',
          PackO ''off, err = packDomainName(rr.%s, msg, off, compression, compress)\<newline>'' ''Mx'',
          PackReturn]"
  by (simp add: MX_fields_def eval_defs)

lemma MX_fields_unpackRoutine:
  "unpackRoutine ''Wrapped'' MX_fields [] =
     Inr [UnpackFunc ''Wrapped'', CursorInit,
          ReadInt ''Uint16'' ''Preference'', EmptyCheck,
          UnpackFieldBuf ''Mx'' ''unpackDomainName'',
          TrailingCheck, UnpackReturn]"
  by (simp add: MX_fields_def eval_defs)

theorem step_counts_witness:
  "Lookup pkg_embed ''RR_Header'' = Some (Object ''RR_Header'' True RR_Header)
   \<and> is_Named RR_Header
   \<and> Lookup pkg_embed ''Wrapped'' = Some (Object ''Wrapped'' True Wrapped)
   \<and> Underlying Wrapped = Struct [Field ''MX'' MX True '''']
   \<and> lookupStruct pkg_embed ''Wrapped'' = Inr MX_fields
   \<and> resolves_to RR_Header Wrapped MX_fields
   \<and> length (filter (\<lambda>f. Tag f \<noteq> ignored) (drop 1 MX_fields)) = 2
   \<and> (\<exists>bp. packAll pkg_embed [''Wrapped''] [] = Inr bp \<and> length (filter is_pack_step bp) = 2)
   \<and> (\<exists>bu. unpackAll pkg_embed [''Wrapped''] [] = Inr bu
         \<and> length (filter is_unpack_step bu) = 2)
   \<and> packAll pkg_embed [''Wrapped''] []
       = packRoutine ''Wrapped'' (Field ''Hdr'' (Basic Bool) True ''dns:\"txt\"'' # tl MX_fields) []
   \<and> unpackAll pkg_embed [''Wrapped''] []
       = unpackRoutine ''Wrapped'' (Field ''Hdr'' (Basic Bool) True ''dns:\"txt\"'' # tl MX_fields) []"
proof -
  note h = pkg_embed_header
  obtain hu where n: "oType (Object ''RR_Header'' True RR_Header) = Named ''RR_Header'' hu"
    by (simp add: RR_Header_def)
  note l = pkg_embed_Wrapped
  have w: "Lookup pkg_embed ''Wrapped'' = Some (Object ''Wrapped'' True Wrapped)"
    by (simp add: pkg_embed_def Lookup_def)
  have u: "Underlying Wrapped = Struct [Field ''MX'' MX True '''']"
    by (simp add: Wrapped_def)
  have c: "length (filter (\<lambda>f. Tag f \<noteq> ignored) (drop 1 MX_fields)) = 2"
    by (simp add: MX_fields_def ignored_def)
  obtain bp bu where r: "packAll pkg_embed [''Wrapped''] [] = Inr bp"
    "unpackAll pkg_embed [''Wrapped''] [] = Inr bu"
    using MX_fields_packRoutine MX_fields_unpackRoutine
      packAll_single [OF l, of "[]"] unpackAll_single [OF l, of "[]"]
    by simp
  note t = step_counts [OF h n, of "''Wrapped''" MX_fields "[]" bp bu
      "Field ''Hdr'' (Basic Bool) True ''dns:\"txt\"''" "[]", THEN conjunct1]
  note t' = step_counts [OF h n, of "''Wrapped''" MX_fields "[]" bp bu
      "Field ''Hdr'' (Basic Bool) True ''dns:\"txt\"''" "[]",
      THEN conjunct2, THEN conjunct1, THEN mp, OF l]
  from t l w have "resolves_to RR_Header Wrapped MX_fields" by auto
  moreover from t' r c
  have "length (filter is_pack_step bp) = 2" "length (filter is_unpack_step bu) = 2"
    by (auto simp: is_pack_step_def is_unpack_step_def list_all_iff filter_id_conv)
  moreover from t'
  have "packAll pkg_embed [''Wrapped''] []
       = packRoutine ''Wrapped'' (Field ''Hdr'' (Basic Bool) True ''dns:\"txt\"'' # tl MX_fields) []"
    "unpackAll pkg_embed [''Wrapped''] []
       = unpackRoutine ''Wrapped'' (Field ''Hdr'' (Basic Bool) True ''dns:\"txt\"'' # tl MX_fields) []"
    by blast+
  moreover have "is_Named RR_Header" by (simp add: RR_Header_def)
  ultimately show ?thesis using h w u l c r by simp
qed

section \<open>Where the check of s.Empty() is written\<close>

lemma unpackSwitch_no_check:
  "unpackSwitch name f = Inr ss \<Longrightarrow> EmptyCheck \<notin> set ss"
  using unpackSwitch_shape [of name f ss] by (auto simp: is_unpack_step_def)

lemma unpackLoopBody_check:
  assumes "unpackLoopBody name st i = Inr ss"
  shows "(EmptyCheck \<in> set ss \<longleftrightarrow> empty_check_after st i)
     \<and> (EmptyCheck \<in> set ss \<longrightarrow> (\<exists>x. is_unpack_step x \<and> ss = [x, EmptyCheck]))"
proof (cases "empty_check_after st i")
  case True
  with assms obtain s1 where s1: "unpackSwitch name (st ! i) = Inr s1" and ss: "ss = s1 @ [EmptyCheck]"
    by (auto simp: unpackLoopBody_def empty_check_after_def ignored_def split: sum.splits)
  from unpackSwitch_shape [OF s1] ss True show ?thesis by auto
next
  case False
  have "EmptyCheck \<notin> set ss"
  proof (cases \<open>HasPrefix (Tag (st ! i)) ''dns:"size-''\<close>)
    case True
    with assms show ?thesis
      by (auto simp: unpackLoopBody_def Let_def split: if_splits)
  next
    case np: False
    show ?thesis
    proof (cases "is_Slice (Type (st ! i))")
      case True
      with assms np show ?thesis
        by (auto simp: unpackLoopBody_def Let_def split: if_splits)
    next
      case ns: False
      show ?thesis
      proof (cases "Tag (st ! i) = ignored")
        case True
        with assms np ns show ?thesis
          by (auto simp: unpackLoopBody_def Let_def ignored_def)
      next
        case ni: False
        with False np ns have last: "\<not> i < length st - 1"
          by (simp add: empty_check_after_def)
        from assms np ns ni last obtain s1 where "unpackSwitch name (st ! i) = Inr s1" "ss = s1"
          by (auto simp: unpackLoopBody_def Let_def ignored_def split: sum.splits)
        with unpackSwitch_no_check show ?thesis by blast
      qed
    qed
  qed
  with False show ?thesis by simp
qed

lemma unpackLoop_checks:
  "unpackLoop name st i b = Inr b' \<Longrightarrow>
   \<exists>ss. b' = b @ ss \<and> count_list ss EmptyCheck = length (filter (empty_check_after st) [i..<length st])"
proof (induction name st i b rule: unpackLoop.induct)
  case (1 name st i b)
  show ?case
  proof (cases "i < length st")
    case False
    with 1(2) show ?thesis by (simp add: unpackLoop.simps [of name st i b])
  next
    case True
    with 1(2) obtain s1 where body: "unpackLoopBody name st i = Inr s1"
      and rest: "unpackLoop name st (i + 1) (b @ s1) = Inr b'"
      by (auto simp: unpackLoop.simps [of name st i b] split: sum.splits)
    from 1(1) [OF True body rest] obtain ss where ss: "b' = (b @ s1) @ ss"
      "count_list ss EmptyCheck = length (filter (empty_check_after st) [i + 1..<length st])"
      by blast
    have u: "[i..<length st] = i # [i + 1..<length st]"
      using True by (simp add: upt_conv_Cons)
    have s1: "count_list s1 EmptyCheck = (if empty_check_after st i then 1 else 0)"
    proof (cases "EmptyCheck \<in> set s1")
      case True
      with unpackLoopBody_check [OF body] obtain x where "is_unpack_step x" "s1 = [x, EmptyCheck]"
        and "empty_check_after st i" by blast
      then show ?thesis by (auto simp: is_unpack_step_def)
    next
      case False
      with unpackLoopBody_check [OF body] have "\<not> empty_check_after st i" by blast
      with False show ?thesis by (simp add: count_list_0_iff)
    qed
    from ss s1 u show ?thesis
      by (intro exI [of _ "s1 @ ss"]) simp
  qed
qed

lemma unpackRoutine_checks:
  assumes "unpackRoutine name st b = Inr b'"
  shows "\<exists>ss. b' = b @ [UnpackFunc name, CursorInit] @ ss @ [TrailingCheck, UnpackReturn]
     \<and> count_list ss EmptyCheck = length (filter (empty_check_after st) [1..<length st])"
proof -
  from assms obtain b1 where l: "unpackLoop name st 1 (b @ [UnpackFunc name, CursorInit]) = Inr b1"
    and b': "b' = b1 @ [TrailingCheck, UnpackReturn]"
    by (auto simp: unpackRoutine_def split: sum.splits)
  from unpackLoop_checks [OF l] b' show ?thesis by auto
qed

text \<open>
  C1, as stated, fails on the scenario of the specification itself: the unpack
  routine written for \<open>Example\<close> has three field steps and one check of \<^verbatim>\<open>s.Empty()\<close>,
  not two. The step of the sequence field \<open>B\<close>, which is not the last field, is
  followed by the step of \<open>C\<close> at once.
\<close>

theorem Example_one_empty_check:
  "unpackRoutine ''Example'' Example [] =
     Inr [UnpackFunc ''Example'', CursorInit,
          ReadInt ''Uint16'' ''A'', EmptyCheck,
          UnpackField ''B'' ''unpackStringTxt'',
          UnpackFieldRest ''C'' ''unpackStringHex'',
          TrailingCheck, UnpackReturn]
   \<and> count_list (projr (unpackRoutine ''Example'' Example [])) EmptyCheck = 1
   \<and> count_list (projr (unpackRoutine ''Example'' Example [])) EmptyCheck \<noteq> 2
   \<and> length (filter is_unpack_step (projr (unpackRoutine ''Example'' Example []))) = 3"
  by (simp add: Example_unpackRoutine is_unpack_step_def)

text \<open>
  C1, amended. An iteration of the unpack loop writes the check of \<^verbatim>\<open>s.Empty()\<close>
  exactly when the field is not a slice, its tag is neither a \<^verbatim>\<open>size-\<close> tag nor the
  ignored one, and its index is not the last index of the struct; the check then
  follows the one step of the field. So the checks of a routine are as many as there
  are such fields, and no check follows the step of a slice field or of a field with a
  \<^verbatim>\<open>size-\<close> tag. For \<open>Example\<close> that is one check, after the step of \<open>A\<close>.
\<close>

theorem empty_check_placement:
  "(unpackLoopBody name st i = Inr ss \<longrightarrow>
      (EmptyCheck \<in> set ss \<longleftrightarrow> empty_check_after st i)
      \<and> (EmptyCheck \<in> set ss \<longrightarrow> (\<exists>x. is_unpack_step x \<and> ss = [x, EmptyCheck])))
   \<and> (unpackRoutine name st b = Inr b' \<longrightarrow>
      (\<exists>ss. b' = b @ [UnpackFunc name, CursorInit] @ ss @ [TrailingCheck, UnpackReturn]
         \<and> count_list ss EmptyCheck = length (filter (empty_check_after st) [1..<length st])))
   \<and> filter (empty_check_after Example) [1..<length Example] = [1]"
proof -
  have "filter (empty_check_after Example) [1..<length Example] = [1]"
    by (simp add: Example_def empty_check_after_def HasPrefix_def ignored_def upt_conv_Cons)
  with unpackLoopBody_check [of name st i ss] unpackRoutine_checks [of name st b b']
  show ?thesis by blast
qed

theorem empty_check_placement_witness:
  "unpackLoopBody ''NSEC3'' NSEC3 4 = Inr [ReadInt ''Uint8'' ''SaltLength'', EmptyCheck]
   \<and> empty_check_after NSEC3 4
   \<and> unpackLoopBody ''NSEC3'' NSEC3 5 = Inr [UnpackFieldLength ''Salt'' ''unpackStringHex'' ''SaltLength'']
   \<and> \<not> empty_check_after NSEC3 5
   \<and> count_list (projr (unpackRoutine ''NSEC3'' NSEC3 [])) EmptyCheck = 5
   \<and> length (filter (empty_check_after NSEC3) [1..<length NSEC3]) = 5"
proof -
  have b4: "unpackLoopBody ''NSEC3'' NSEC3 4 = Inr [ReadInt ''Uint8'' ''SaltLength'', EmptyCheck]"
    by (simp add: eval_defs NSEC3_def)
  have b5: "unpackLoopBody ''NSEC3'' NSEC3 5 = Inr [UnpackFieldLength ''Salt'' ''unpackStringHex'' ''SaltLength'']"
    by (simp add: eval_defs NSEC3_def)
  from empty_check_placement [of "''NSEC3''" NSEC3 4 "[ReadInt ''Uint8'' ''SaltLength'', EmptyCheck]"
      "[]" "projr (unpackRoutine ''NSEC3'' NSEC3 [])"]
    empty_check_placement [of "''NSEC3''" NSEC3 5
      "[UnpackFieldLength ''Salt'' ''unpackStringHex'' ''SaltLength'']"
      "[]" "projr (unpackRoutine ''NSEC3'' NSEC3 [])"]
    b4 b5
  show ?thesis by (auto simp: NSEC3_unpackRoutine)
qed

section \<open>The end of an unpack routine\<close>

lemma unpackLoop_buffer:
  "unpackLoop name st i (b @ c) =
     (case unpackLoop name st i c of Inl e \<Rightarrow> Inl e | Inr r \<Rightarrow> Inr (b @ r))"
proof (induction name st i c arbitrary: b rule: unpackLoop.induct)
  case (1 name st i c)
  show ?case
  proof (cases "i < length st")
    case False
    then show ?thesis
      by (simp add: unpackLoop.simps [of name st i "b @ c"] unpackLoop.simps [of name st i c])
  next
    case True
    show ?thesis
    proof (cases "unpackLoopBody name st i")
      case (Inl e)
      with True show ?thesis
        by (simp add: unpackLoop.simps [of name st i "b @ c"] unpackLoop.simps [of name st i c])
    next
      case (Inr ss)
      from 1 [OF True Inr, of b] True Inr show ?thesis
        by (simp add: unpackLoop.simps [of name st i "b @ c"] unpackLoop.simps [of name st i c])
    qed
  qed
qed

lemma exec_unpack_consumed:
  "list_all (\<lambda>x. is_unpack_step x \<or> x = EmptyCheck) ss \<Longrightarrow>
   exec_unpack call read (ss @ [TrailingCheck, UnpackReturn]) \<sigma> = (None, \<sigma>') \<Longrightarrow> snd \<sigma>' = []"
proof (induction ss arbitrary: \<sigma>)
  case Nil
  then show ?case by (auto simp: is_call_step_def split: if_splits)
next
  case (Cons x ss)
  show ?case
  proof (cases "is_call_step x")
    case True
    with Cons.prems(2) obtain \<tau> where "call x \<sigma> = (None, \<tau>)"
      and "exec_unpack call read (ss @ [TrailingCheck, UnpackReturn]) \<tau> = (None, \<sigma>')"
      by (auto split: prod.splits option.splits)
    with Cons.IH Cons.prems(1) show ?thesis by simp
  next
    case False
    with Cons.prems(1) consider t n where "x = ReadInt t n" | "x = EmptyCheck"
      by (cases x) (auto simp: is_unpack_step_def is_call_step_def)
    then show ?thesis
    proof cases
      case 1
      with False Cons.prems(2) obtain \<tau> where "read x \<sigma> = (True, \<tau>)"
        and "exec_unpack call read (ss @ [TrailingCheck, UnpackReturn]) \<tau> = (None, \<sigma>')"
        by (auto split: prod.splits bool.splits)
      with Cons.IH Cons.prems(1) show ?thesis by simp
    next
      case 2
      show ?thesis
      proof (cases "snd \<sigma> = []")
        case True
        with 2 False Cons.prems(2) show ?thesis by auto
      next
        case ne: False
        with 2 False Cons.prems(2)
        have "exec_unpack call read (ss @ [TrailingCheck, UnpackReturn]) \<sigma> = (None, \<sigma>')" by simp
        with Cons.IH Cons.prems(1) show ?thesis by simp
      qed
    qed
  qed
qed

lemma exec_unpack_through:
  "list_all (\<lambda>x. is_unpack_step x \<or> x = EmptyCheck) ss \<Longrightarrow>
   exec_unpack call read ss \<sigma> = (None, \<sigma>') \<Longrightarrow> snd \<sigma>' \<noteq> [] \<Longrightarrow>
   exec_unpack call read (ss @ rest) \<sigma> = exec_unpack call read rest \<sigma>'"
proof (induction ss arbitrary: \<sigma>)
  case Nil
  then show ?case by simp
next
  case (Cons x ss)
  show ?case
  proof (cases "is_call_step x")
    case True
    with Cons.prems(2) obtain \<tau> where c: "call x \<sigma> = (None, \<tau>)"
      and "exec_unpack call read ss \<tau> = (None, \<sigma>')"
      by (auto split: prod.splits option.splits)
    with Cons.IH [of \<tau>] Cons.prems(1,3) have "exec_unpack call read (ss @ rest) \<tau> = exec_unpack call read rest \<sigma>'"
      by simp
    with True c show ?thesis by simp
  next
    case False
    with Cons.prems(1) consider t n where "x = ReadInt t n" | "x = EmptyCheck"
      by (cases x) (auto simp: is_unpack_step_def is_call_step_def)
    then show ?thesis
    proof cases
      case 1
      with False Cons.prems(2) obtain \<tau> where r: "read x \<sigma> = (True, \<tau>)"
        and "exec_unpack call read ss \<tau> = (None, \<sigma>')"
        by (auto split: prod.splits bool.splits)
      with Cons.IH [of \<tau>] Cons.prems(1,3) have "exec_unpack call read (ss @ rest) \<tau> = exec_unpack call read rest \<sigma>'"
        by simp
      with False 1 r show ?thesis by simp
    next
      case 2
      show ?thesis
      proof (cases "snd \<sigma> = []")
        case True
        with 2 False Cons.prems(2,3) show ?thesis by auto
      next
        case ne: False
        with 2 False Cons.prems(2) have "exec_unpack call read ss \<sigma> = (None, \<sigma>')" by simp
        with Cons.IH [of \<sigma>] Cons.prems(1,3) have "exec_unpack call read (ss @ rest) \<sigma> = exec_unpack call read rest \<sigma>'"
          by simp
        with False 2 ne show ?thesis by simp
      qed
    qed
  qed
qed

text \<open>
  C4. Whenever the field loop of a record gets through, with the statements \<open>ss\<close>,
  the unpack routine of the record is the function header, \<open>ss\<close>, and then the check
  that the cursor is empty and the final return; \<open>ss\<close> holds field steps and checks of
  \<^verbatim>\<open>s.Empty()\<close> only. The last check is the line that returns \<^verbatim>\<open>errTrailingRData\<close>
  when bytes are left. Run on any record data, with any primitives: if the statements of
  the fields end without an error and leave bytes in the cursor, the routine returns
  \<^verbatim>\<open>errTrailingRData\<close>; and the routine never returns without an error while bytes are
  left.
\<close>

theorem trailing_data_check:
  assumes "unpackLoop name st 1 [] = Inr ss"
  shows "unpackRoutine name st b
       = Inr (b @ [UnpackFunc name, CursorInit] @ ss @ [TrailingCheck, UnpackReturn])
     \<and> list_all (\<lambda>x. is_unpack_step x \<or> x = EmptyCheck) ss
     \<and> render TrailingCheck = ''if !s.Empty() { return errTrailingRData }\<newline>''
     \<and> (exec_unpack call read ss (rr, s) = (None, rr', s') \<and> s' \<noteq> [] \<longrightarrow>
          exec_unpack call read ([UnpackFunc name, CursorInit] @ ss @ [TrailingCheck, UnpackReturn])
            (rr, s) = (Some errTrailingRData, rr', s'))
     \<and> (exec_unpack call read ([UnpackFunc name, CursorInit] @ ss @ [TrailingCheck, UnpackReturn])
            (rr, s) = (None, rr', s') \<longrightarrow> s' = [])"
proof -
  from unpackLoop_buffer [of name st 1 "b @ [UnpackFunc name, CursorInit]" "[]"] assms
  have r: "unpackRoutine name st b
       = Inr (b @ [UnpackFunc name, CursorInit] @ ss @ [TrailingCheck, UnpackReturn])"
    by (simp add: unpackRoutine_def)
  from unpackLoop_steps [OF assms] have ss: "list_all (\<lambda>x. is_unpack_step x \<or> x = EmptyCheck) ss"
    by simp
  have t: "exec_unpack call read ([UnpackFunc name, CursorInit] @ ss @ [TrailingCheck, UnpackReturn])
            (rr, s) = (Some errTrailingRData, rr', s')"
    if "exec_unpack call read ss (rr, s) = (None, rr', s')" and "s' \<noteq> []"
    using exec_unpack_through [OF ss that(1), of "[TrailingCheck, UnpackReturn]"] that(2)
    by (simp add: is_call_step_def)
  have e: "s' = []"
    if "exec_unpack call read ([UnpackFunc name, CursorInit] @ ss @ [TrailingCheck, UnpackReturn])
            (rr, s) = (None, rr', s')"
  proof -
    from that have "exec_unpack call read (ss @ [TrailingCheck, UnpackReturn]) (rr, s) = (None, rr', s')"
      by (simp add: is_call_step_def)
    from exec_unpack_consumed [OF ss this] show ?thesis by simp
  qed
  from r ss t e show ?thesis by simp
qed

text \<open>
  The routine of \<open>Example\<close> with primitives that take one byte each: on four bytes one
  byte is left after the last field, and the routine fails with the error; on three
  bytes it returns without one.
\<close>

theorem trailing_data_check_witness:
  "unpackLoop ''Example'' Example 1 []
     = Inr [ReadInt ''Uint16'' ''A'', EmptyCheck, UnpackField ''B'' ''unpackStringTxt'',
            UnpackFieldRest ''C'' ''unpackStringHex'']
   \<and> unpackRoutine ''Example'' Example []
     = Inr [UnpackFunc ''Example'', CursorInit,
            ReadInt ''Uint16'' ''A'', EmptyCheck, UnpackField ''B'' ''unpackStringTxt'',
            UnpackFieldRest ''C'' ''unpackStringHex'', TrailingCheck, UnpackReturn]
   \<and> exec_unpack take_byte read_byte (projr (unpackLoop ''Example'' Example 1 [])) (0, ''abcd'')
      = (None, 3, ''d'')
   \<and> exec_unpack take_byte read_byte (projr (unpackRoutine ''Example'' Example [])) (0, ''abcd'')
      = (Some errTrailingRData, 3, ''d'')
   \<and> exec_unpack take_byte read_byte (projr (unpackRoutine ''Example'' Example [])) (0, ''abc'')
      = (None, 3, '''')"
proof -
  have l: "unpackLoop ''Example'' Example 1 []
     = Inr [ReadInt ''Uint16'' ''A'', EmptyCheck, UnpackField ''B'' ''unpackStringTxt'',
            UnpackFieldRest ''C'' ''unpackStringHex'']"
    by (simp add: eval_defs Example_def)
  have x: "exec_unpack take_byte read_byte
      [ReadInt ''Uint16'' ''A'', EmptyCheck, UnpackField ''B'' ''unpackStringTxt'',
       UnpackFieldRest ''C'' ''unpackStringHex''] (0, ''abcd'') = (None, 3, ''d'')"
    by (simp add: is_call_step_def take_byte_def read_byte_def)
  from trailing_data_check [OF l, of "[]" take_byte read_byte 0 "''abcd''" 3 "''d''"] x
  have "unpackRoutine ''Example'' Example []
     = Inr [UnpackFunc ''Example'', CursorInit,
            ReadInt ''Uint16'' ''A'', EmptyCheck, UnpackField ''B'' ''unpackStringTxt'',
            UnpackFieldRest ''C'' ''unpackStringHex'', TrailingCheck, UnpackReturn]"
    and "exec_unpack take_byte read_byte
        [UnpackFunc ''Example'', CursorInit,
         ReadInt ''Uint16'' ''A'', EmptyCheck, UnpackField ''B'' ''unpackStringTxt'',
         UnpackFieldRest ''C'' ''unpackStringHex'', TrailingCheck, UnpackReturn] (0, ''abcd'')
      = (Some errTrailingRData, 3, ''d'')"
    by simp_all
  with l x show ?thesis
    by (simp add: is_call_step_def take_byte_def read_byte_def)
qed

section \<open>The salt sentinel\<close>

lemma Sprintf_SaltPack:
  \<open>render (SaltPack F) =
     ''// Only pack salt if value is not "-", i.e. empty\<newline>if rr.'' @ F @
     '' != "-" {\<newline>  off, err = packStringHex(rr.'' @ F @
     '', msg, off)\<newline>  if err != nil {\<newline>    return off, err\<newline>  }\<newline>}\<newline>''\<close>
  by simp

lemma structTag_size_hex:
  \<open>HasPrefix t ''dns:"size-hex:'' \<Longrightarrow> structTag t = ''hex''\<close>
  by (auto simp: HasPrefix_def structTag_def TrimPrefix_def Cut_before_def prefix_def)

lemma HasPrefix_trans:
  "HasPrefix t p \<Longrightarrow> prefix q p \<Longrightarrow> HasPrefix t q"
  by (auto simp: HasPrefix_def)

text \<open>
  C2, as stated, fails for a blob of another encoding whose length is held
  by a field named \<open>SaltLength\<close>: the line written for a \<^verbatim>\<open>size-base32:SaltLength\<close>
  field packs the value whatever it is. With the value \<^verbatim>\<open>"-"\<close> the primitive runs, and
  here it writes a byte and moves the offset.
\<close>

theorem Base32Salt_no_sentinel:
  "packLoopBody ''Base32Salt'' Base32Salt 2
     = Inr [PackO ''off, err = packStringBase32(rr.%s, msg, off)\<newline>'' ''Salt'']
   \<and> render (PackO ''off, err = packStringBase32(rr.%s, msg, off)\<newline>'' ''Salt'')
     = ''off, err = packStringBase32(rr.Salt, msg, off)\<newline>if err != nil {\<newline>return off, err\<newline>}\<newline>''
   \<and> exec_pack put_byte put_byte no_salt
        (projr (packLoopBody ''Base32Salt'' Base32Salt 2)) ('''', 0) = (None, ''?'', 1)"
  by (simp add: eval_defs Base32Salt_def put_byte_def no_salt_def)

text \<open>
  C2, amended. For a field that is not a slice and whose tag starts with
  \<^verbatim>\<open>dns:"size-hex:SaltLength\<close>, the pack loop writes the salt template for the field:
  run with the value \<^verbatim>\<open>"-"\<close> in the field it calls nothing and leaves buffer and offset
  as they are, with any other value it runs \<^verbatim>\<open>packStringHex\<close> on the value and returns
  its error if there is one. The unpack loop writes for the same field the plain call of
  \<^verbatim>\<open>unpackStringHex\<close> with the length taken from the field the tag names, which runs
  the primitive without a condition. For the tag \<^verbatim>\<open>dns:"size-hex:SaltLength"\<close> that
  field is \<open>SaltLength\<close>.
\<close>

theorem salt_sentinel:
  assumes "\<not> is_Slice (Type (st ! i))"
    and "HasPrefix (Tag (st ! i)) ''dns:\"size-hex:SaltLength''"
  shows "packLoopBody name st i = Inr [SaltPack (Name (st ! i))]
     \<and> render (SaltPack F)
          = ''// Only pack salt if value is not \"-\", i.e. empty\<newline>if rr.'' @ F
            @ '' != \"-\" {\<newline>  off, err = packStringHex(rr.'' @ F
            @ '', msg, off)\<newline>  if err != nil {\<newline>    return off, err\<newline>  }\<newline>}\<newline>''
     \<and> (rr (Name (st ! i)) = ''-'' \<longrightarrow>
          exec_pack call packStringHex rr (SaltPack (Name (st ! i)) # xs) \<sigma>
            = exec_pack call packStringHex rr xs \<sigma>)
     \<and> (rr (Name (st ! i)) \<noteq> ''-'' \<longrightarrow>
          exec_pack call packStringHex rr (SaltPack (Name (st ! i)) # xs) \<sigma>
            = (case packStringHex (rr (Name (st ! i))) \<sigma> of
                 (None, \<sigma>') \<Rightarrow> exec_pack call packStringHex rr xs \<sigma>'
               | (Some err, \<sigma>') \<Rightarrow> (Some err, \<sigma>')))
     \<and> unpackLoopBody name st i
          = Inr [UnpackFieldLength (Name (st ! i)) ''unpackStringHex'' (structMember (Tag (st ! i)))]
     \<and> exec_unpack ucall uread (UnpackFieldLength F u m # ys) \<tau>
          = (case ucall (UnpackFieldLength F u m) \<tau> of
               (None, \<tau>') \<Rightarrow> exec_unpack ucall uread ys \<tau>'
             | (Some err, \<tau>') \<Rightarrow> (Some err, \<tau>'))
     \<and> structMember ''dns:\"size-hex:SaltLength\"'' = ''SaltLength''"
proof -
  have p: "HasPrefix (Tag (st ! i)) ''dns:\"size-hex:''" "HasPrefix (Tag (st ! i)) ''dns:\"size-''"
    by (rule HasPrefix_trans [OF assms(2)], simp)+
  from p(1) have t: "structTag (Tag (st ! i)) = ''hex''" by (rule structTag_size_hex)
  from assms(2) have no: "Tag (st ! i) \<noteq> ''dns:\"-\"''" "Tag (st ! i) \<noteq> ''dns:\"cdomain-name\"''"
    "Tag (st ! i) \<noteq> ''dns:\"domain-name\"''" "Tag (st ! i) \<noteq> ''dns:\"a\"''"
    "Tag (st ! i) \<noteq> ''dns:\"aaaa\"''" "Tag (st ! i) \<noteq> ''dns:\"uint48\"''"
    "Tag (st ! i) \<noteq> ''dns:\"txt\"''" "Tag (st ! i) \<noteq> ''dns:\"base32\"''"
    "Tag (st ! i) \<noteq> ''dns:\"base64\"''"
    "\<not> HasPrefix (Tag (st ! i)) ''dns:\"size-base32''" "\<not> HasPrefix (Tag (st ! i)) ''dns:\"size-base64''"
    by (auto simp: HasPrefix_def prefix_def)
  have pack: "packLoopBody name st i = Inr [SaltPack (Name (st ! i))]"
    using assms no by (simp add: packLoopBody_def)
  have unpack: "unpackLoopBody name st i
      = Inr [UnpackFieldLength (Name (st ! i)) ''unpackStringHex'' (structMember (Tag (st ! i)))]"
    using p(2) t by (simp add: unpackLoopBody_def Let_def)
  have m: "structMember ''dns:\"size-hex:SaltLength\"'' = ''SaltLength''"
    by (simp add: structMember_def LastIndex_def TrimSuffix_def suffix_to_prefix)
  show ?thesis using pack unpack m Sprintf_SaltPack [of F] by (simp add: is_call_step_def)
qed

theorem salt_sentinel_witness:
  "\<not> is_Slice (Type (NSEC3 ! 5)) \<and> HasPrefix (Tag (NSEC3 ! 5)) ''dns:\"size-hex:SaltLength''
   \<and> packLoopBody ''NSEC3'' NSEC3 5 = Inr [SaltPack ''Salt'']
   \<and> exec_pack put_byte put_byte no_salt [SaltPack ''Salt''] (''abc'', 3)
        = (None, ''abc'', 3)
   \<and> exec_pack put_byte put_byte some_salt [SaltPack ''Salt''] (''abc'', 3)
        = (None, ''abc?'', 4)
   \<and> unpackLoopBody ''NSEC3'' NSEC3 5 = Inr [UnpackFieldLength ''Salt'' ''unpackStringHex'' ''SaltLength'']"
proof -
  have h: "\<not> is_Slice (Type (NSEC3 ! 5))" "HasPrefix (Tag (NSEC3 ! 5)) ''dns:\"size-hex:SaltLength''"
    by (simp_all add: NSEC3_def HasPrefix_def)
  have n: "Name (NSEC3 ! 5) = ''Salt''" "Tag (NSEC3 ! 5) = ''dns:\"size-hex:SaltLength\"''"
    by (simp_all add: NSEC3_def)
  from salt_sentinel [OF h, of "''NSEC3''" "''Salt''" no_salt put_byte put_byte "[]" "(''abc'', 3)"]
    salt_sentinel [OF h, of "''NSEC3''" "''Salt''" some_salt put_byte put_byte "[]" "(''abc'', 3)"]
    h
  show ?thesis
    by (simp add: n put_byte_def no_salt_def some_salt_def is_call_step_def structMember_def LastIndex_def TrimSuffix_def
        suffix_to_prefix)
qed

section \<open>Blobs with and without a length field\<close>

lemma takeWhile_upto:
  "c \<notin> set xs \<Longrightarrow> takeWhile (\<lambda>x. x \<noteq> c) (xs @ c # ys) = xs"
  by (induction xs) auto


lemma structTag_size:
  assumes "CHR '':'' \<notin> set enc"
  shows "structTag (''dns:'' @ [CHR 0x22] @ ''size-'' @ enc @ '':'' @ r) = enc"
  using assms
  by (simp add: structTag_def TrimPrefix_def HasPrefix_def Cut_before_def takeWhile_upto)










section \<open>The gateway fields\<close>



section \<open>Fields inside and outside the vocabulary\<close>

lemma HasPrefix_salt: \<open>HasPrefix t ''dns:"size-hex:SaltLength'' \<Longrightarrow> HasPrefix t ''dns:"size-hex''\<close>
  by (erule HasPrefix_trans) simp

lemma packLoopBody_accepts:
  "(\<exists>ps. packLoopBody name st i = Inr ps) \<longleftrightarrow> pack_accepts (st ! i)"
proof (cases "is_Slice (Type (st ! i))")
  case True
  then show ?thesis
    by (auto simp add: packLoopBody_def pack_accepts_def sequence_annotations_def Let_def)
next
  case False
  then show ?thesis
    using HasPrefix_salt [of "Tag (st ! i)"]
    by (auto simp add: packLoopBody_def pack_accepts_def scalar_annotations_def basic_codec_def
        Let_def split: gotype.split)
qed

lemma unpackSwitch_accepts:
  assumes "Tag f \<noteq> ignored"
  shows "(\<exists>us. unpackSwitch name f = Inr us) \<longleftrightarrow>
     Tag f \<in> set scalar_annotations \<or> (Tag f = [] \<and> basic_codec (Type f))"
  using assms
  by (auto simp add: unpackSwitch_def scalar_annotations_def basic_codec_def ignored_def Let_def
      split: gotype.split)

lemma unpackLoopBody_accepts:
  "(\<exists>us. unpackLoopBody name st i = Inr us) \<longleftrightarrow> unpack_accepts (st ! i)"
proof (cases \<open>HasPrefix (Tag (st ! i)) ''dns:"size-''\<close>)
  case True
  then show ?thesis
    by (auto simp add: unpackLoopBody_def unpack_accepts_def Let_def)
next
  case np: False
  show ?thesis
  proof (cases "is_Slice (Type (st ! i))")
    case True
    with np show ?thesis
      by (auto simp add: unpackLoopBody_def unpack_accepts_def sequence_annotations_def Let_def)
  next
    case ns: False
    show ?thesis
    proof (cases "Tag (st ! i) = ignored")
      case True
      with np ns show ?thesis
        by (simp add: unpackLoopBody_def unpack_accepts_def scalar_annotations_def ignored_def)
    next
      case False
      have "(\<exists>us. unpackLoopBody name st i = Inr us) \<longleftrightarrow> (\<exists>us. unpackSwitch name (st ! i) = Inr us)"
        using np ns False by (auto simp add: unpackLoopBody_def ignored_def Let_def split: sum.splits)
      with unpackSwitch_accepts [OF False, of name] np ns show ?thesis
        by (simp add: unpack_accepts_def)
    qed
  qed
qed

lemma takeWhile_prefix: "prefix (takeWhile P xs) xs"
  by (metis takeWhile_dropWhile_id prefixI)

lemma structTag_prefix:
  assumes "HasPrefix t ''dns:\"size-''"
  shows "HasPrefix t (''dns:\"size-'' @ structTag t)"
proof -
  from assms obtain r where t: "t = ''dns:\"size-'' @ r"
    by (auto simp: HasPrefix_def prefix_def)
  have "structTag t = takeWhile (\<lambda>x. x \<noteq> CHR '':'') r"
    by (simp add: t structTag_def TrimPrefix_def HasPrefix_def Cut_before_def)
  with takeWhile_prefix [of "\<lambda>x. x \<noteq> CHR '':''" r] show ?thesis
    by (simp add: t HasPrefix_def)
qed

lemma vocabulary_both:
  "pack_accepts f \<and> unpack_accepts f \<longleftrightarrow> in_vocabulary f"
proof (cases \<open>HasPrefix (Tag f) ''dns:"size-''\<close>)
  case True
  have no: "Tag f \<notin> set sequence_annotations" "Tag f \<notin> set scalar_annotations" "Tag f \<noteq> []"
    using True by (auto simp: sequence_annotations_def scalar_annotations_def HasPrefix_def)
  have "HasPrefix (Tag f) ''dns:\"size-base32''
    \<or> HasPrefix (Tag f) ''dns:\"size-base64''
    \<or> HasPrefix (Tag f) ''dns:\"size-hex''"
    if "structTag (Tag f) \<in> {''hex'', ''base32'', ''base64''}"
    using structTag_prefix [OF True] that by auto
  with True no show ?thesis
    by (auto simp add: pack_accepts_def unpack_accepts_def in_vocabulary_def size_annotation_def)
next
  case False
  have "\<not> HasPrefix (Tag f) ''dns:\"size-base32''"
    "\<not> HasPrefix (Tag f) ''dns:\"size-base64''"
    "\<not> HasPrefix (Tag f) ''dns:\"size-hex''"
    using False by (auto dest!: HasPrefix_trans [where q = "''dns:\"size-''"])
  with False show ?thesis
    by (auto simp add: pack_accepts_def unpack_accepts_def in_vocabulary_def size_annotation_def)
qed

lemma packLoop_Inr_iff:
  "(\<exists>b'. packLoop name st i b = Inr b') \<longleftrightarrow>
   (\<forall>j. i \<le> j \<and> j < length st \<longrightarrow> (\<exists>ss. packLoopBody name st j = Inr ss))"
proof (induction name st i b rule: packLoop.induct)
  case (1 name st i b)
  show ?case
  proof (cases "i < length st")
    case False
    then show ?thesis by (auto simp add: packLoop.simps [of name st i b])
  next
    case True
    show ?thesis
    proof (cases "packLoopBody name st i")
      case (Inl e)
      with True show ?thesis
        by (auto simp: packLoop.simps [of name st i b])
    next
      case (Inr s1)
      have "(\<forall>j. i \<le> j \<and> j < length st \<longrightarrow> (\<exists>ss. packLoopBody name st j = Inr ss))
        \<longleftrightarrow> (\<forall>j. i + 1 \<le> j \<and> j < length st \<longrightarrow> (\<exists>ss. packLoopBody name st j = Inr ss))"
        using Inr by (metis Suc_eq_plus1 Suc_leI le_neq_implies_less add_leD1)
      with 1 [OF True Inr] True Inr show ?thesis
        by (simp add: packLoop.simps [of name st i b])
    qed
  qed
qed

lemma unpackLoop_Inr_iff:
  "(\<exists>b'. unpackLoop name st i b = Inr b') \<longleftrightarrow>
   (\<forall>j. i \<le> j \<and> j < length st \<longrightarrow> (\<exists>ss. unpackLoopBody name st j = Inr ss))"
proof (induction name st i b rule: unpackLoop.induct)
  case (1 name st i b)
  show ?case
  proof (cases "i < length st")
    case False
    then show ?thesis by (auto simp add: unpackLoop.simps [of name st i b])
  next
    case True
    show ?thesis
    proof (cases "unpackLoopBody name st i")
      case (Inl e)
      with True show ?thesis
        by (auto simp: unpackLoop.simps [of name st i b])
    next
      case (Inr s1)
      have "(\<forall>j. i \<le> j \<and> j < length st \<longrightarrow> (\<exists>ss. unpackLoopBody name st j = Inr ss))
        \<longleftrightarrow> (\<forall>j. i + 1 \<le> j \<and> j < length st \<longrightarrow> (\<exists>ss. unpackLoopBody name st j = Inr ss))"
        using Inr by (metis Suc_eq_plus1 Suc_leI le_neq_implies_less add_leD1)
      with 1 [OF True Inr] True Inr show ?thesis
        by (simp add: unpackLoop.simps [of name st i b])
    qed
  qed
qed

lemma packRoutine_Inr_iff:
  "(\<exists>b'. packRoutine name st b = Inr b') \<longleftrightarrow>
   (\<forall>j. 1 \<le> j \<and> j < length st \<longrightarrow> pack_accepts (st ! j))"
  using packLoop_Inr_iff [of name st 1 "b @ [PackFunc name]"]
  by (auto simp: packRoutine_def packLoopBody_accepts split: sum.splits)

lemma unpackRoutine_Inr_iff:
  "(\<exists>b'. unpackRoutine name st b = Inr b') \<longleftrightarrow>
   (\<forall>j. 1 \<le> j \<and> j < length st \<longrightarrow> unpack_accepts (st ! j))"
  using unpackLoop_Inr_iff [of name st 1 "b @ [UnpackFunc name, CursorInit]"]
  by (auto simp: unpackRoutine_def unpackLoopBody_accepts split: sum.splits)

lemma empty_annotation_pack:
  assumes "Tag (st ! i) = []" and "\<not> is_Slice (Type (st ! i))"
  shows "packLoopBody name st i =
     (case Type (st ! i) of
        Basic k \<Rightarrow>
          if k = Uint8 then Inr [PackO ''off, err = packUint8(rr.%s, msg, off)\<newline>'' (Name (st ! i))]
          else if k = Uint16 then Inr [PackO ''off, err = packUint16(rr.%s, msg, off)\<newline>'' (Name (st ! i))]
          else if k = Uint32 then Inr [PackO ''off, err = packUint32(rr.%s, msg, off)\<newline>'' (Name (st ! i))]
          else if k = Uint64 then Inr [PackO ''off, err = packUint64(rr.%s, msg, off)\<newline>'' (Name (st ! i))]
          else if k = String then Inr [PackO ''off, err = packString(rr.%s, msg, off)\<newline>'' (Name (st ! i))]
          else Inl (Fatal [name, Name (st ! i)])
      | _ \<Rightarrow> Inl Panic)"
  using assms by (simp add: packLoopBody_def HasPrefix_def Let_def cong: gotype.case_cong)

lemma empty_annotation_unpack:
  assumes "Tag (st ! i) = []" and "\<not> is_Slice (Type (st ! i))"
  shows "unpackLoopBody name st i =
     (case Type (st ! i) of
        Basic k \<Rightarrow>
          if k = Uint8 then Inr (ReadInt ''Uint8'' (Name (st ! i)) # (if i < length st - 1 then [EmptyCheck] else []))
          else if k = Uint16 then Inr (ReadInt ''Uint16'' (Name (st ! i)) # (if i < length st - 1 then [EmptyCheck] else []))
          else if k = Uint32 then Inr (ReadInt ''Uint32'' (Name (st ! i)) # (if i < length st - 1 then [EmptyCheck] else []))
          else if k = Uint64 then Inr (ReadInt ''Uint64'' (Name (st ! i)) # (if i < length st - 1 then [EmptyCheck] else []))
          else if k = String then Inr (UnpackField (Name (st ! i)) ''unpackString'' # (if i < length st - 1 then [EmptyCheck] else []))
          else Inl (Fatal [name, Name (st ! i)])
      | _ \<Rightarrow> Inl Panic)"
  using assms
  by (simp add: unpackLoopBody_def unpackSwitch_def HasPrefix_def Let_def split: gotype.split)

lemma size_annotation_form:
  assumes "CHR '':'' \<notin> set enc"
  shows "size_annotation (''dns:\"size-'' @ enc @ '':'' @ r) \<longleftrightarrow> enc \<in> {''hex'', ''base32'', ''base64''}"
  using structTag_size [OF assms, of r]
  by (simp add: size_annotation_def HasPrefix_def)

section \<open>From the scope to the schema list\<close>

lemma Lookup_Some:
  "Lookup scope name = Some obj \<Longrightarrow> oName obj = name \<and> obj \<in> set scope"
  by (auto simp: Lookup_def find_Some_iff)

lemma Lookup_Names:
  "Lookup scope name = Some obj \<Longrightarrow> name \<in> set (Names scope)"
  using Lookup_Some [of scope name obj] by (auto simp: Names_def)

lemma discovered_lookupStruct:
  "discovered scope name \<Longrightarrow> \<exists>st. lookupStruct scope name = Inr st"
  by (auto simp: discovered_def lookupStruct_def split: option.splits sum.splits prod.splits)

lemma collectTypes_result:
  assumes "Lookup scope ''RR_Header'' = Some h"
  shows "collectTypes scope names acc =
     (if \<exists>n\<in>set names. missing_Type scope n
      then Inl (Fatal [''Constant Type'' @ hd (filter (missing_Type scope) names) @ '' does not exist.''])
      else Inr (acc @ filter (discovered scope) names))"
proof (induction names arbitrary: acc)
  case Nil
  then show ?case by simp
next
  case (Cons name names)
  show ?case
  proof (cases "Lookup scope name")
    case None
    then have "\<not> discovered scope name" "\<not> missing_Type scope name"
      by (simp_all add: discovered_def missing_Type_def)
    with None Cons show ?thesis by simp
  next
    case (Some obj)
    then have on: "oName obj = name" using Lookup_Some by blast
    from getTypeStruct_no_error [OF assms, of "oType obj"] obtain st b
      where g: "getTypeStruct (oType obj) scope = Inr (st, b)" by (cases, auto)
    show ?thesis
    proof (cases "discovered scope name")
      case False
      with Some g have "\<not> Exported obj \<or> st = None \<or> name = ''PrivateRR''"
        by (auto simp: discovered_def split: option.splits)
      moreover from False have "\<not> missing_Type scope name" by (simp add: missing_Type_def)
      ultimately show ?thesis using Some g False Cons by auto
    next
      case True
      with Some g have d: "Exported obj" "st \<noteq> None" "name \<noteq> ''PrivateRR''"
        by (auto simp: discovered_def split: option.splits)
      show ?thesis
      proof (cases "missing_Type scope name")
        case m: True
        with True have "Lookup scope (''Type'' @ name) = None" "name \<noteq> ''RFC3597''"
          by (simp_all add: missing_Type_def)
        with Some g d on m show ?thesis by auto
      next
        case m: False
        with True have "\<not> (Lookup scope (''Type'' @ name) = None \<and> name \<noteq> ''RFC3597'')"
          by (simp add: missing_Type_def)
        with Some g d on m True Cons [of "acc @ [name]"] show ?thesis by auto
      qed
    qed
  qed
qed

lemma lookupAll_discovered:
  "\<forall>n\<in>set names. discovered scope n \<Longrightarrow>
   \<exists>schemas. lookupAll scope names = Inr schemas \<and> map fst schemas = names"
proof (induction names)
  case Nil
  then show ?case by simp
next
  case (Cons name names)
  then obtain schemas where "lookupAll scope names = Inr schemas" "map fst schemas = names"
    by auto
  moreover from Cons.prems discovered_lookupStruct [of scope name]
  obtain st where "lookupStruct scope name = Inr st" by auto
  ultimately show ?case by simp
qed

lemma packAll_emitPack:
  "lookupAll scope names = Inr schemas \<Longrightarrow> packAll scope names b = emitPack schemas b"
proof (induction names arbitrary: schemas b)
  case Nil
  then show ?case by simp
next
  case (Cons name names)
  then show ?case
    by (auto split: sum.splits)
qed

lemma unpackAll_emitUnpack:
  "lookupAll scope names = Inr schemas \<Longrightarrow> unpackAll scope names b = emitUnpack schemas b"
proof (induction names arbitrary: schemas b)
  case Nil
  then show ?case by simp
next
  case (Cons name names)
  then show ?case
    by (auto split: sum.splits)
qed

lemma collectTypes_discovered:
  assumes "Lookup scope ''RR_Header'' = Some h"
    and "collectTypes scope names [] = Inr namedTypes"
  shows "\<forall>n\<in>set namedTypes. discovered scope n"
  using assms(2) unfolding collectTypes_result [OF assms(1)]
  by (auto split: if_splits)

lemma collectTypes_no_header:
  assumes "Lookup scope ''RR_Header'' = None"
    and "collectTypes scope names acc = Inr namedTypes"
  shows "namedTypes = acc"
  using assms(2)
proof (induction names arbitrary: acc)
  case Nil
  then show ?case by simp
next
  case (Cons name names)
  show ?case
  proof (cases "Lookup scope name")
    case None
    with Cons show ?thesis by simp
  next
    case (Some obj)
    show ?thesis
    proof (cases "Exported obj")
      case False
      with Some Cons show ?thesis by simp
    next
      case True
      have "getTypeStruct (oType obj) scope = Inl Panic \<or> getTypeStruct (oType obj) scope = Inr (None, False)"
        using assms(1) by (subst (1 2) getTypeStruct.simps) (auto split: gotype.splits)
      with Some True Cons show ?thesis by auto
    qed
  qed
qed

lemma main_emit:
  "main format_Source scope =
     (case extractSchemas scope of Inl e \<Rightarrow> Inl e | Inr schemas \<Rightarrow> emit format_Source schemas)"
proof (cases "collectTypes scope (Names scope) []")
  case (Inl e)
  then show ?thesis by (simp add: main_def extractSchemas_def)
next
  case (Inr namedTypes)
  have "\<exists>schemas. lookupAll scope namedTypes = Inr schemas"
  proof (cases "Lookup scope ''RR_Header''")
    case None
    from collectTypes_no_header [OF None Inr] show ?thesis by simp
  next
    case (Some h)
    from collectTypes_discovered [OF Some Inr] lookupAll_discovered show ?thesis by blast
  qed
  then obtain schemas where s: "lookupAll scope namedTypes = Inr schemas" ..
  with Inr show ?thesis
    by (simp add: main_def extractSchemas_def emit_def packAll_emitPack [OF s]
        unpackAll_emitUnpack [OF s] cong: sum.case_cong)
qed

lemma emitPack_Inr_iff:
  "(\<exists>b'. emitPack schemas b = Inr b') \<longleftrightarrow>
   (\<forall>(n, st)\<in>set schemas. \<forall>j. 1 \<le> j \<and> j < length st \<longrightarrow> pack_accepts (st ! j))"
proof (induction schemas arbitrary: b)
  case Nil
  then show ?case by simp
next
  case (Cons s schemas)
  obtain n st where s: "s = (n, st)" by (cases s)
  show ?case
  proof (cases "packRoutine n st b")
    case (Inl e)
    with packRoutine_Inr_iff [of n st b] s show ?thesis by auto
  next
    case (Inr b1)
    with packRoutine_Inr_iff [of n st b] s Cons [of b1] show ?thesis by auto
  qed
qed

lemma emitUnpack_Inr_iff:
  "(\<exists>b'. emitUnpack schemas b = Inr b') \<longleftrightarrow>
   (\<forall>(n, st)\<in>set schemas. \<forall>j. 1 \<le> j \<and> j < length st \<longrightarrow> unpack_accepts (st ! j))"
proof (induction schemas arbitrary: b)
  case Nil
  then show ?case by simp
next
  case (Cons s schemas)
  obtain n st where s: "s = (n, st)" by (cases s)
  show ?case
  proof (cases "unpackRoutine n st b")
    case (Inl e)
    with unpackRoutine_Inr_iff [of n st b] s show ?thesis by auto
  next
    case (Inr b1)
    with unpackRoutine_Inr_iff [of n st b] s Cons [of b1] show ?thesis by auto
  qed
qed

lemma emit_total:
  assumes "\<forall>(n, st)\<in>set schemas. \<forall>j. 1 \<le> j \<and> j < length st \<longrightarrow> in_vocabulary (st ! j)"
  shows "\<exists>b. \<forall>format_Source. emit format_Source schemas = format_Source (bufferText b)"
proof -
  from assms have p: "\<forall>(n, st)\<in>set schemas. \<forall>j. 1 \<le> j \<and> j < length st \<longrightarrow> pack_accepts (st ! j)"
    and u: "\<forall>(n, st)\<in>set schemas. \<forall>j. 1 \<le> j \<and> j < length st \<longrightarrow> unpack_accepts (st ! j)"
    using vocabulary_both by blast+
  from p emitPack_Inr_iff [of schemas "[PackageHdr, PackComment]"]
  obtain b where b: "emitPack schemas [PackageHdr, PackComment] = Inr b" by blast
  from u emitUnpack_Inr_iff [of schemas "b @ [UnpackComment]"]
  obtain b' where "emitUnpack schemas (b @ [UnpackComment]) = Inr b'" by blast
  with b show ?thesis by (auto simp: emit_def)
qed

lemma emit_fatal:
  assumes "\<not> (\<forall>(n, st)\<in>set schemas. \<forall>j. 1 \<le> j \<and> j < length st \<longrightarrow> in_vocabulary (st ! j))"
  shows "\<exists>e. \<forall>format_Source. emit format_Source schemas = Inl e"
proof -
  from assms vocabulary_both
  have "\<not> (\<forall>(n, st)\<in>set schemas. \<forall>j. 1 \<le> j \<and> j < length st \<longrightarrow> pack_accepts (st ! j))
     \<or> \<not> (\<forall>(n, st)\<in>set schemas. \<forall>j. 1 \<le> j \<and> j < length st \<longrightarrow> unpack_accepts (st ! j))"
    by blast
  then show ?thesis
  proof
    assume "\<not> (\<forall>(n, st)\<in>set schemas. \<forall>j. 1 \<le> j \<and> j < length st \<longrightarrow> pack_accepts (st ! j))"
    with emitPack_Inr_iff [of schemas "[PackageHdr, PackComment]"]
    obtain e where "emitPack schemas [PackageHdr, PackComment] = Inl e"
      by (cases "emitPack schemas [PackageHdr, PackComment]") auto
    then show ?thesis by (auto simp: emit_def)
  next
    assume u: "\<not> (\<forall>(n, st)\<in>set schemas. \<forall>j. 1 \<le> j \<and> j < length st \<longrightarrow> unpack_accepts (st ! j))"
    show ?thesis
    proof (cases "emitPack schemas [PackageHdr, PackComment]")
      case (Inl e)
      then show ?thesis by (auto simp: emit_def)
    next
      case (Inr b)
      from u emitUnpack_Inr_iff [of schemas "b @ [UnpackComment]"]
      obtain e where "emitUnpack schemas (b @ [UnpackComment]) = Inl e"
        by (cases "emitUnpack schemas (b @ [UnpackComment])") auto
      with Inr show ?thesis by (auto simp: emit_def)
    qed
  qed
qed

section \<open>The annotation interpreter\<close>

text \<open>
  C5, as stated, fails for an empty annotation on a field whose type is a named type
  declared over a basic type. The field \<open>Code\<close> of \<open>Coded\<close> has the type \<open>Rcode\<close>,
  declared as \<^verbatim>\<open>uint16\<close>: its underlying type is the basic type \<^verbatim>\<open>uint16\<close>, and yet
  neither loop gives it the codec of \<^verbatim>\<open>uint16\<close>. Both look at the type itself with
  \<^verbatim>\<open>.(*types.Basic)\<close>, the assertion fails, and no routine is written for the record.
\<close>

theorem named_uint16_not_resolved:
  "Tag (Coded ! 1) = '''' \<and> Type (Coded ! 1) = Named ''Rcode'' (Basic Uint16)
   \<and> Underlying (Type (Coded ! 1)) = Basic Uint16
   \<and> stated_vocabulary (Coded ! 1)
   \<and> packLoopBody ''Coded'' Coded 1 = Inl Panic
   \<and> packLoopBody ''Coded'' Coded 1
        \<noteq> Inr [PackO ''off, err = packUint16(rr.%s, msg, off)\<newline>'' ''Code'']
   \<and> unpackLoopBody ''Coded'' Coded 1 = Inl Panic
   \<and> unpackLoopBody ''Coded'' Coded 1 \<noteq> Inr [ReadInt ''Uint16'' ''Code'']
   \<and> packRoutine ''Coded'' Coded [] = Inl Panic
   \<and> unpackRoutine ''Coded'' Coded [] = Inl Panic"
  by (simp add: Coded_def stated_vocabulary_def basic_codec_def eval_defs)

text \<open>
  C5, amended. Both loops get through a field exactly when the field is in the
  vocabulary, for a slice field and for any other; both routines of a record are written
  exactly when every field after the first is in the vocabulary; and for the schema list
  of a scope, \<^verbatim>\<open>main\<close> reaches \<^verbatim>\<open>format.Source\<close> with the text of a buffer when every
  such field of every record is in the vocabulary, and stops with an error when one is
  not. A \<^verbatim>\<open>size-\<close> tag is in the vocabulary exactly for the encodings \<^verbatim>\<open>hex\<close>,
  \<^verbatim>\<open>base32\<close> and \<^verbatim>\<open>base64\<close>. The empty tag is resolved by the type of the field
  itself, not by its underlying type: a field that is not a slice and whose type is the
  basic type \<^verbatim>\<open>uint8\<close>, \<^verbatim>\<open>uint16\<close>, \<^verbatim>\<open>uint32\<close>, \<^verbatim>\<open>uint64\<close> or \<^verbatim>\<open>string\<close> gets the
  codec of that type; any other basic type is fatal; and a type that is not itself
  basic, a named type over a basic type among them, stops the generator at the type
  assertion.
\<close>

theorem annotation_vocabulary:
  "(((\<exists>ps. packLoopBody name st i = Inr ps) \<and> (\<exists>us. unpackLoopBody name st i = Inr us))
      \<longleftrightarrow> in_vocabulary (st ! i))
   \<and> (((\<exists>bp. packRoutine name st b = Inr bp) \<and> (\<exists>bu. unpackRoutine name st b' = Inr bu))
      \<longleftrightarrow> (\<forall>j. 1 \<le> j \<and> j < length st \<longrightarrow> in_vocabulary (st ! j)))
   \<and> (extractSchemas scope = Inr schemas \<longrightarrow>
        (if \<forall>(n, st)\<in>set schemas. \<forall>j. 1 \<le> j \<and> j < length st \<longrightarrow> in_vocabulary (st ! j)
         then \<exists>buf. \<forall>format_Source. main format_Source scope = format_Source (bufferText buf)
         else \<exists>e. \<forall>format_Source. main format_Source scope = Inl e))
   \<and> (CHR '':'' \<notin> set enc \<longrightarrow>
        size_annotation (''dns:\"size-'' @ enc @ '':'' @ r) = (enc \<in> {''hex'', ''base32'', ''base64''}))
   \<and> (Tag (st ! i) = '''' \<and> \<not> is_Slice (Type (st ! i)) \<longrightarrow>
        packLoopBody name st i =
          (case Type (st ! i) of
             Basic k \<Rightarrow>
               if k = Uint8 then Inr [PackO ''off, err = packUint8(rr.%s, msg, off)\<newline>'' (Name (st ! i))]
               else if k = Uint16 then Inr [PackO ''off, err = packUint16(rr.%s, msg, off)\<newline>'' (Name (st ! i))]
               else if k = Uint32 then Inr [PackO ''off, err = packUint32(rr.%s, msg, off)\<newline>'' (Name (st ! i))]
               else if k = Uint64 then Inr [PackO ''off, err = packUint64(rr.%s, msg, off)\<newline>'' (Name (st ! i))]
               else if k = String then Inr [PackO ''off, err = packString(rr.%s, msg, off)\<newline>'' (Name (st ! i))]
               else Inl (Fatal [name, Name (st ! i)])
           | _ \<Rightarrow> Inl Panic)
        \<and> unpackLoopBody name st i =
          (case Type (st ! i) of
             Basic k \<Rightarrow>
               if k = Uint8 then Inr (ReadInt ''Uint8'' (Name (st ! i)) # (if i < length st - 1 then [EmptyCheck] else []))
               else if k = Uint16 then Inr (ReadInt ''Uint16'' (Name (st ! i)) # (if i < length st - 1 then [EmptyCheck] else []))
               else if k = Uint32 then Inr (ReadInt ''Uint32'' (Name (st ! i)) # (if i < length st - 1 then [EmptyCheck] else []))
               else if k = Uint64 then Inr (ReadInt ''Uint64'' (Name (st ! i)) # (if i < length st - 1 then [EmptyCheck] else []))
               else if k = String then Inr (UnpackField (Name (st ! i)) ''unpackString'' # (if i < length st - 1 then [EmptyCheck] else []))
               else Inl (Fatal [name, Name (st ! i)])
           | _ \<Rightarrow> Inl Panic))"
proof -
  have a: "((\<exists>ps. packLoopBody name st i = Inr ps) \<and> (\<exists>us. unpackLoopBody name st i = Inr us))
      \<longleftrightarrow> in_vocabulary (st ! i)"
    by (simp add: packLoopBody_accepts unpackLoopBody_accepts vocabulary_both)
  have b: "((\<exists>bp. packRoutine name st b = Inr bp) \<and> (\<exists>bu. unpackRoutine name st b' = Inr bu))
      \<longleftrightarrow> (\<forall>j. 1 \<le> j \<and> j < length st \<longrightarrow> in_vocabulary (st ! j))"
    unfolding packRoutine_Inr_iff unpackRoutine_Inr_iff using vocabulary_both by blast
  have c: "if \<forall>(n, st)\<in>set schemas. \<forall>j. 1 \<le> j \<and> j < length st \<longrightarrow> in_vocabulary (st ! j)
         then \<exists>buf. \<forall>format_Source. main format_Source scope = format_Source (bufferText buf)
         else \<exists>e. \<forall>format_Source. main format_Source scope = Inl e"
    if "extractSchemas scope = Inr schemas"
    using that emit_total [of schemas] emit_fatal [of schemas] by (simp add: main_emit)
  from a b c size_annotation_form [of enc r]
    empty_annotation_pack [of st i name] empty_annotation_unpack [of st i name]
  show ?thesis by blast
qed

lemma pkg_schemas: "extractSchemas pkg = Inr [(''MX'', case Underlying MX of Struct st \<Rightarrow> st)]"
  by code_simp

lemma pkg_bad_schemas: "extractSchemas pkg_bad = Inr [(''Bad'', Bad)]"
  by code_simp

theorem annotation_vocabulary_witness:
  "in_vocabulary (NSEC3 ! 5)
   \<and> (\<exists>ps. packLoopBody ''NSEC3'' NSEC3 5 = Inr ps) \<and> (\<exists>us. unpackLoopBody ''NSEC3'' NSEC3 5 = Inr us)
   \<and> \<not> in_vocabulary (Bad ! 1) \<and> \<not> in_vocabulary (Bad ! 2) \<and> \<not> in_vocabulary (Bad ! 3)
   \<and> packLoopBody ''Bad'' Bad 1 = Inl (Fatal [''Bad'', ''X'', ''dns:\"bogus\"''])
   \<and> packLoopBody ''Bad'' Bad 2 = Inl (Fatal [''Bad'', ''Y''])
   \<and> unpackLoopBody ''Bad'' Bad 2 = Inl (Fatal [''Bad'', ''Y''])
   \<and> unpackLoopBody ''Bad'' Bad 3 = Inl (Fatal [''Bad'', ''Z'', ''dns:\"size-octal:X\"''])
   \<and> \<not> size_annotation ''dns:\"size-octal:X\"''
   \<and> (\<exists>buf. main Inr pkg = Inr (bufferText buf))
   \<and> (\<exists>e. main Inr pkg_bad = Inl e)"
proof -
  have v: "in_vocabulary (NSEC3 ! 5)" "\<not> in_vocabulary (Bad ! 1)" "\<not> in_vocabulary (Bad ! 2)"
    "\<not> in_vocabulary (Bad ! 3)"
    by (simp_all add: in_vocabulary_def NSEC3_def Bad_def scalar_annotations_def
        size_annotation_def basic_codec_def eval_defs)
  have f: "packLoopBody ''Bad'' Bad 1 = Inl (Fatal [''Bad'', ''X'', ''dns:\"bogus\"''])"
    "unpackLoopBody ''Bad'' Bad 3 = Inl (Fatal [''Bad'', ''Z'', ''dns:\"size-octal:X\"''])"
    by (simp_all add: Bad_def eval_defs)
  have m: "\<forall>(n, st)\<in>set [(''MX'', case Underlying MX of Struct st \<Rightarrow> st)].
      \<forall>j. 1 \<le> j \<and> j < length st \<longrightarrow> in_vocabulary (st ! j)"
    by (auto simp: MX_def in_vocabulary_def scalar_annotations_def basic_codec_def less_Suc_eq
        numeral_3_eq_3)
  have nb: "\<not> (\<forall>(n, st)\<in>set [(''Bad'', Bad)].
      \<forall>j. 1 \<le> j \<and> j < length st \<longrightarrow> in_vocabulary (st ! j))"
    using v(2) by (auto simp: Bad_def intro!: exI [of _ 1])
  note good = annotation_vocabulary [of "''NSEC3''" NSEC3 5 "[]" "[]" pkg
      "[(''MX'', case Underlying MX of Struct st \<Rightarrow> st)]" "''hex''" "''SaltLength''"]
  note bad = annotation_vocabulary [of "''Bad''" Bad 2 "[]" "[]" pkg_bad "[(''Bad'', Bad)]"
      "''octal''" "''X\"''"]
  from good [THEN conjunct1] v(1)
  have 0: "(\<exists>ps. packLoopBody ''NSEC3'' NSEC3 5 = Inr ps) \<and> (\<exists>us. unpackLoopBody ''NSEC3'' NSEC3 5 = Inr us)"
    by simp
  from good [THEN conjunct2, THEN conjunct2, THEN conjunct1, rule_format, OF pkg_schemas] m
  have "\<exists>buf. \<forall>format_Source. main format_Source pkg = format_Source (bufferText buf)" by simp
  then have 1: "\<exists>buf. main Inr pkg = Inr (bufferText buf)" by blast
  from bad [THEN conjunct2, THEN conjunct2, THEN conjunct1, rule_format, OF pkg_bad_schemas] nb
  have "\<exists>e. \<forall>format_Source. main format_Source pkg_bad = Inl e" by simp
  then have 2: "\<exists>e. main Inr pkg_bad = Inl e" by blast
  from bad [THEN conjunct2, THEN conjunct2, THEN conjunct2, THEN conjunct1]
  have 3: "\<not> size_annotation ''dns:\"size-octal:X\"''" by simp
  have e: "Tag (Bad ! 2) = '''' \<and> \<not> is_Slice (Type (Bad ! 2))" "Type (Bad ! 2) = Basic Bool"
    "Name (Bad ! 2) = ''Y''"
    by (simp_all add: Bad_def)
  from bad [THEN conjunct2, THEN conjunct2, THEN conjunct2, THEN conjunct2, THEN mp, OF e(1)]
  have 4: "packLoopBody ''Bad'' Bad 2 = Inl (Fatal [''Bad'', ''Y''])"
    "unpackLoopBody ''Bad'' Bad 2 = Inl (Fatal [''Bad'', ''Y''])"
    by (simp_all add: e)
  from v f 0 1 2 3 4 show ?thesis by simp
qed

section \<open>The type-code constants\<close>

lemma missing_Type_first:
  assumes "\<exists>n\<in>set names. missing_Type scope n"
  shows "missing_Type scope (hd (filter (missing_Type scope) names))"
proof -
  from assms have "filter (missing_Type scope) names \<noteq> []"
    by (auto simp: filter_empty_conv)
  then have "hd (filter (missing_Type scope) names) \<in> set (filter (missing_Type scope) names)"
    by (rule hd_in_set)
  then show ?thesis by simp
qed

text \<open>
  C8. With the header type declared: if some discovered name other than \<^verbatim>\<open>RFC3597\<close>
  has no constant \<^verbatim>\<open>Type<name>\<close> in the scope, \<^verbatim>\<open>main\<close> stops with the fatal message
  for such a name, whatever comes after; and if \<^verbatim>\<open>RFC3597\<close> is the only discovered name
  that may lack its constant, the first loop collects all discovered names.
\<close>

theorem Type_constant_required:
  assumes "Lookup scope ''RR_Header'' = Some h"
  shows "(discovered scope x \<and> Lookup scope (''Type'' @ x) = None \<and> x \<noteq> ''RFC3597'' \<longrightarrow>
            (\<exists>y. discovered scope y \<and> Lookup scope (''Type'' @ y) = None \<and> y \<noteq> ''RFC3597''
               \<and> (\<forall>format_Source. main format_Source scope
                     = Inl (Fatal [''Constant Type'' @ y @ '' does not exist.'']))))
     \<and> ((\<forall>y. discovered scope y \<and> Lookup scope (''Type'' @ y) = None \<longrightarrow> y = ''RFC3597'') \<longrightarrow>
            collectTypes scope (Names scope) [] = Inr (filter (discovered scope) (Names scope)))"
proof (intro conjI impI)
  assume "discovered scope x \<and> Lookup scope (''Type'' @ x) = None \<and> x \<noteq> ''RFC3597''"
  then have m: "missing_Type scope x" and "Lookup scope x \<noteq> None"
    by (auto simp: missing_Type_def discovered_def split: option.splits)
  then have "x \<in> set (Names scope)" using Lookup_Names by auto
  with m have ex: "\<exists>n\<in>set (Names scope). missing_Type scope n" by blast
  let ?y = "hd (filter (missing_Type scope) (Names scope))"
  from missing_Type_first [OF ex] have "missing_Type scope ?y" .
  moreover from ex have "collectTypes scope (Names scope) []
      = Inl (Fatal [''Constant Type'' @ ?y @ '' does not exist.''])"
    by (simp add: collectTypes_result [OF assms])
  ultimately show "\<exists>y. discovered scope y \<and> Lookup scope (''Type'' @ y) = None \<and> y \<noteq> ''RFC3597''
               \<and> (\<forall>format_Source. main format_Source scope
                     = Inl (Fatal [''Constant Type'' @ y @ '' does not exist.'']))"
    by (intro exI [of _ ?y]) (simp add: missing_Type_def main_def)
next
  assume "\<forall>y. discovered scope y \<and> Lookup scope (''Type'' @ y) = None \<longrightarrow> y = ''RFC3597''"
  then have "\<not> (\<exists>n\<in>set (Names scope). missing_Type scope n)"
    by (auto simp: missing_Type_def)
  then show "collectTypes scope (Names scope) [] = Inr (filter (discovered scope) (Names scope))"
    by (simp add: collectTypes_result [OF assms])
qed

lemma pkg_noType_facts:
  "Lookup pkg_noType ''RR_Header'' = Some (Object ''RR_Header'' True RR_Header)"
  "discovered pkg_noType ''MX''" "Lookup pkg_noType (''Type'' @ ''MX'') = None"
  "main Inr pkg_noType = Inl (Fatal [''Constant TypeMX does not exist.''])"
  by code_simp+

lemma pkg_legacy_facts:
  "Lookup pkg_legacy ''RR_Header'' = Some (Object ''RR_Header'' True RR_Header)"
  "Lookup pkg_legacy ''TypeRFC3597'' = None"
  "Names pkg_legacy = [''RFC3597'', ''RR_Header'']"
  "discovered pkg_legacy ''RFC3597''"
  "\<not> discovered pkg_legacy ''RR_Header''"
  by code_simp+

theorem Type_constant_required_witness:
  "Lookup pkg_noType ''RR_Header'' = Some (Object ''RR_Header'' True RR_Header)
   \<and> discovered pkg_noType ''MX'' \<and> Lookup pkg_noType ''TypeMX'' = None
   \<and> main Inr pkg_noType = Inl (Fatal [''Constant TypeMX does not exist.''])
   \<and> Lookup pkg_legacy ''TypeRFC3597'' = None
   \<and> collectTypes pkg_legacy (Names pkg_legacy) [] = Inr [''RFC3597'']"
proof -
  have only: "\<forall>y. discovered pkg_legacy y \<and> Lookup pkg_legacy (''Type'' @ y) = None \<longrightarrow> y = ''RFC3597''"
  proof (intro allI impI)
    fix y assume d: "discovered pkg_legacy y \<and> Lookup pkg_legacy (''Type'' @ y) = None"
    then have "Lookup pkg_legacy y \<noteq> None" by (auto simp: discovered_def split: option.splits)
    then have "y \<in> set (Names pkg_legacy)" using Lookup_Names by auto
    with d pkg_legacy_facts(3,5) show "y = ''RFC3597''" by auto
  qed
  from Type_constant_required [OF pkg_noType_facts(1), of "''MX''"]
    Type_constant_required [OF pkg_legacy_facts(1), THEN conjunct2, THEN mp, OF only]
    pkg_noType_facts pkg_legacy_facts
  show ?thesis by simp
qed

section \<open>The output does not depend on the order of the scope\<close>

lemma Lookup_distinct:
  "distinct (map oName sc) \<Longrightarrow> Lookup sc n = Some obj \<longleftrightarrow> obj \<in> set sc \<and> oName obj = n"
  by (induction sc) (auto simp add: Lookup_def)

lemma Lookup_None: "Lookup sc n = None \<longleftrightarrow> (\<forall>obj\<in>set sc. oName obj \<noteq> n)"
  by (auto simp add: Lookup_def find_None_iff)

lemma Lookup_same_objects:
  assumes "distinct (map oName sc)" and "distinct (map oName sc')" and "set sc = set sc'"
  shows "Lookup sc n = Lookup sc' n"
proof (cases "Lookup sc n")
  case None
  with assms(3) have "Lookup sc' n = None" by (simp add: Lookup_None)
  with None show ?thesis by simp
next
  case (Some obj)
  with assms(1) have "obj \<in> set sc \<and> oName obj = n" by (simp add: Lookup_distinct)
  with assms(2,3) have "Lookup sc' n = Some obj" by (simp add: Lookup_distinct)
  with Some show ?thesis by simp
qed

lemma Names_sorted: "sorted (Names sc) \<and> distinct (Names sc)"
  by (simp add: Names_def)

lemma Names_same_objects: "set sc = set sc' \<Longrightarrow> Names sc = Names sc'"
  unfolding Names_def by (rule sorted_distinct_set_unique) simp_all

lemma getTypeStruct_same_header:
  "Lookup sc ''RR_Header'' = Lookup sc' ''RR_Header'' \<Longrightarrow> getTypeStruct t sc = getTypeStruct t sc'"
proof (induction t sc rule: getTypeStruct.induct)
  case (1 t scope)
  note s = getTypeStruct.simps [of t scope] getTypeStruct.simps [of t sc']
  show ?case
  proof (cases "Underlying t")
    case (Struct st)
    show ?thesis
    proof (cases "Lookup scope ''RR_Header''")
      case None
      with Struct 1(2) show ?thesis by (simp add: s)
    next
      case (Some h)
      show ?thesis
      proof (cases "length st \<noteq> 0 \<and> \<not> same_type (Type (st ! 0)) (oType h) \<and> Anonymous (st ! 0)")
        case True
        with 1(1) [OF Struct _ Some] 1(2)
        have "getTypeStruct (Type (st ! 0)) scope = getTypeStruct (Type (st ! 0)) sc'" by simp
        with True Struct Some 1(2) show ?thesis by (simp add: s)
      next
        case False
        with Struct Some 1(2) show ?thesis by (auto simp add: s)
      qed
    qed
  qed (simp_all add: s)
qed

lemma collectTypes_same_lookup:
  assumes "\<And>n. Lookup sc n = Lookup sc' n"
  shows "collectTypes sc names acc = collectTypes sc' names acc"
proof (induction names arbitrary: acc)
  case Nil
  show ?case by simp
next
  case (Cons name names)
  have g: "getTypeStruct t sc = getTypeStruct t sc'" for t
    by (rule getTypeStruct_same_header) (rule assms)
  show ?case
  proof (cases "Lookup sc' name")
    case None
    with assms [of name] Cons show ?thesis by simp
  next
    case (Some obj)
    show ?thesis
    proof (cases "getTypeStruct (oType obj) sc'")
      case (Inl e)
      with Some assms [of name] g [of "oType obj"] Cons show ?thesis by simp
    next
      case (Inr r)
      obtain st e where r: "r = (st, e)" by (cases r)
      from Some assms [of name] have l: "Lookup sc name = Some obj" by simp
      from Inr r g [of "oType obj"] have t: "getTypeStruct (oType obj) sc = Inr (st, e)" by simp
      have c: "collectTypes sc (name # names) acc =
          (if \<not> Exported obj then collectTypes sc names acc
           else if st = None then collectTypes sc names acc
           else if name = ''PrivateRR'' then collectTypes sc names acc
           else if Lookup sc (''Type'' @ oName obj) = None \<and> oName obj \<noteq> ''RFC3597'' then
             Inl (Fatal [Sprintf ''Constant Type%s does not exist.'' [oName obj]])
           else collectTypes sc names (acc @ [oName obj]))"
        by (simp add: l t)
      have c': "collectTypes sc' (name # names) acc =
          (if \<not> Exported obj then collectTypes sc' names acc
           else if st = None then collectTypes sc' names acc
           else if name = ''PrivateRR'' then collectTypes sc' names acc
           else if Lookup sc' (''Type'' @ oName obj) = None \<and> oName obj \<noteq> ''RFC3597'' then
             Inl (Fatal [Sprintf ''Constant Type%s does not exist.'' [oName obj]])
           else collectTypes sc' names (acc @ [oName obj]))"
        using Some Inr r by simp
      show ?thesis unfolding c c' Cons assms [of "''Type'' @ oName obj"] ..
    qed
  qed
qed

lemma lookupStruct_same_lookup:
  assumes "\<And>n. Lookup sc n = Lookup sc' n"
  shows "lookupStruct sc name = lookupStruct sc' name"
proof -
  have g: "getTypeStruct t sc = getTypeStruct t sc'" for t
    by (rule getTypeStruct_same_header) (rule assms)
  show ?thesis
  proof (cases "Lookup sc' name")
    case None
    with assms [of name] show ?thesis by (simp add: lookupStruct_def)
  next
    case (Some obj)
    with assms [of name] g [of "oType obj"] show ?thesis by (simp add: lookupStruct_def)
  qed
qed

lemma packAll_same_lookup:
  assumes "\<And>n. Lookup sc n = Lookup sc' n"
  shows "packAll sc names b = packAll sc' names b"
proof (induction names arbitrary: b)
  case Nil
  show ?case by simp
next
  case (Cons name names)
  show ?case
  proof (cases "lookupStruct sc' name")
    case (Inl e)
    with lookupStruct_same_lookup [of sc sc' name, OF assms] show ?thesis by simp
  next
    case (Inr st)
    with lookupStruct_same_lookup [of sc sc' name, OF assms] show ?thesis
      by (cases "packRoutine name st b") (simp_all add: Cons)
  qed
qed

lemma unpackAll_same_lookup:
  assumes "\<And>n. Lookup sc n = Lookup sc' n"
  shows "unpackAll sc names b = unpackAll sc' names b"
proof (induction names arbitrary: b)
  case Nil
  show ?case by simp
next
  case (Cons name names)
  show ?case
  proof (cases "lookupStruct sc' name")
    case (Inl e)
    with lookupStruct_same_lookup [of sc sc' name, OF assms] show ?thesis by simp
  next
    case (Inr st)
    with lookupStruct_same_lookup [of sc sc' name, OF assms] show ?thesis
      by (cases "unpackRoutine name st b") (simp_all add: Cons)
  qed
qed

lemma main_same_objects:
  assumes "distinct (map oName sc)" and "distinct (map oName sc')" and "set sc = set sc'"
  shows "main format_Source sc = main format_Source sc'"
proof -
  have l: "Lookup sc n = Lookup sc' n" for n
    using assms by (rule Lookup_same_objects)
  have n: "Names sc = Names sc'"
    using assms(3) by (rule Names_same_objects)
  have p: "packAll sc names b = packAll sc' names b" for names b
    by (rule packAll_same_lookup) (rule l)
  have u: "unpackAll sc names b = unpackAll sc' names b" for names b
    by (rule unpackAll_same_lookup) (rule l)
  have c: "collectTypes sc names acc = collectTypes sc' names acc" for names acc
    by (rule collectTypes_same_lookup) (rule l)
  show ?thesis
    unfolding main_def n c p u ..
qed

lemma collectTypes_subseq:
  "collectTypes scope names acc = Inr namedTypes \<Longrightarrow>
   \<exists>ns. namedTypes = acc @ ns \<and> subseq ns names"
proof (induction names arbitrary: acc)
  case Nil
  then show ?case by simp
next
  case (Cons name names)
  show ?case
  proof (cases "collectTypes scope names acc = Inr namedTypes")
    case True
    from Cons.IH [OF True] show ?thesis by auto
  next
    case False
    with Cons.prems obtain obj where o: "Lookup scope name = Some obj"
      and c: "collectTypes scope names (acc @ [oName obj]) = Inr namedTypes"
      by (auto split: option.splits if_splits sum.splits prod.splits)
    from o have "oName obj = name" using Lookup_Some by blast
    with Cons.IH [OF c] show ?thesis by auto
  qed
qed

lemma pack_names_append: "pack_names (b @ c) = pack_names b @ pack_names c"
  by (simp add: pack_names_def)

lemma unpack_names_append: "unpack_names (b @ c) = unpack_names b @ unpack_names c"
  by (simp add: unpack_names_def)

lemma pack_steps_no_names:
  "list_all is_pack_step ss \<Longrightarrow> pack_names ss = [] \<and> unpack_names ss = []"
  by (induction ss)
    (auto simp add: pack_names_def unpack_names_def is_pack_step_def split: stmt.splits)

lemma unpack_steps_no_names:
  "list_all (\<lambda>x. is_unpack_step x \<or> x = EmptyCheck) ss \<Longrightarrow>
   pack_names ss = [] \<and> unpack_names ss = []"
  by (induction ss)
    (auto simp add: pack_names_def unpack_names_def is_unpack_step_def split: stmt.splits)

lemma packAll_names:
  "packAll scope names b = Inr b' \<Longrightarrow>
   pack_names b' = pack_names b @ names \<and> unpack_names b' = unpack_names b"
proof (induction names arbitrary: b)
  case Nil
  then show ?case by simp
next
  case (Cons name names)
  from Cons.prems obtain st b1 where r: "packRoutine name st b = Inr b1"
    and a: "packAll scope names b1 = Inr b'"
    by (auto split: sum.splits)
  from packRoutine_steps [OF r] obtain ss
    where b1: "b1 = b @ [PackFunc name] @ ss @ [PackReturn]" and ss: "list_all is_pack_step ss"
    by blast
  from pack_steps_no_names [OF ss]
  have "pack_names b1 = pack_names b @ [name]" "unpack_names b1 = unpack_names b"
    by (simp_all add: b1 pack_names_append unpack_names_append)
      (simp_all add: pack_names_def unpack_names_def)
  with Cons.IH [OF a] show ?case by simp
qed

lemma unpackAll_names:
  "unpackAll scope names b = Inr b' \<Longrightarrow>
   unpack_names b' = unpack_names b @ names \<and> pack_names b' = pack_names b"
proof (induction names arbitrary: b)
  case Nil
  then show ?case by simp
next
  case (Cons name names)
  from Cons.prems obtain st b1 where r: "unpackRoutine name st b = Inr b1"
    and a: "unpackAll scope names b1 = Inr b'"
    by (auto split: sum.splits)
  from unpackRoutine_steps [OF r] obtain ss
    where b1: "b1 = b @ [UnpackFunc name, CursorInit] @ ss @ [TrailingCheck, UnpackReturn]"
      and ss: "list_all (\<lambda>x. is_unpack_step x \<or> x = EmptyCheck) ss"
    by blast
  from unpack_steps_no_names [OF ss]
  have "unpack_names b1 = unpack_names b @ [name]" "pack_names b1 = pack_names b"
    by (simp_all add: b1 pack_names_append unpack_names_append)
      (simp_all add: pack_names_def unpack_names_def)
  with Cons.IH [OF a] show ?case by simp
qed

lemma main_names:
  assumes "collectTypes scope (Names scope) [] = Inr namedTypes"
    and "packAll scope namedTypes [PackageHdr, PackComment] = Inr b"
    and "unpackAll scope namedTypes (b @ [UnpackComment]) = Inr b'"
  shows "main format_Source scope = format_Source (bufferText b')
    \<and> pack_names b' = namedTypes \<and> unpack_names b' = namedTypes"
proof -
  from packAll_names [OF assms(2)] have "pack_names b = namedTypes" "unpack_names b = []"
    by (simp_all add: pack_names_def unpack_names_def)
  with unpackAll_names [OF assms(3)] have "pack_names b' = namedTypes" "unpack_names b' = namedTypes"
    by (simp_all add: pack_names_append unpack_names_append)
      (simp_all add: pack_names_def unpack_names_def)
  with assms show ?thesis by (simp add: main_def)
qed

text \<open>
  C9. What a run of the generator produces is fixed by the objects of the package scope.
  The scope of \<^verbatim>\<open>go/types\<close> holds its objects in a map, one object for a name, in no
  order that a second run would repeat; the generator reads it through \<^verbatim>\<open>Lookup\<close> and
  through \<^verbatim>\<open>Names\<close>, which sorts. So two scopes that hold the same objects, in
  whatever order, give the same result: the same error, or the same text handed to
  \<^verbatim>\<open>format.Source\<close> and the same answer from it. The names collected for the two
  emitting loops are in increasing order, each once; the buffer whose text goes to
  \<^verbatim>\<open>format.Source\<close> holds one pack function and one unpack function for each of them,
  in that order. The result is the schema list of the scope handed to \<open>emit\<close>.
\<close>

theorem generator_deterministic:
  assumes "distinct (map oName scope)" and "distinct (map oName scope')"
    and "set scope = set scope'"
  shows "main format_Source scope = main format_Source scope'
   \<and> collectTypes scope (Names scope) [] = collectTypes scope' (Names scope') []
   \<and> (collectTypes scope (Names scope) [] = Inr namedTypes \<longrightarrow>
        sorted namedTypes \<and> distinct namedTypes)
   \<and> (collectTypes scope (Names scope) [] = Inr namedTypes
        \<and> packAll scope namedTypes [PackageHdr, PackComment] = Inr b
        \<and> unpackAll scope namedTypes (b @ [UnpackComment]) = Inr b' \<longrightarrow>
        main format_Source scope = format_Source (bufferText b')
        \<and> pack_names b' = namedTypes \<and> unpack_names b' = namedTypes)
   \<and> main format_Source scope
        = (case extractSchemas scope of
             Inl e \<Rightarrow> Inl e
           | Inr schemas \<Rightarrow> emit format_Source schemas)"
proof (intro conjI impI; (elim conjE)?)
  assume "collectTypes scope (Names scope) [] = Inr namedTypes"
    and "packAll scope namedTypes [PackageHdr, PackComment] = Inr b"
    and "unpackAll scope namedTypes (b @ [UnpackComment]) = Inr b'"
  from main_names [OF this]
  show "main format_Source scope = format_Source (bufferText b')"
    and "pack_names b' = namedTypes" and "unpack_names b' = namedTypes"
    by simp_all
next
  show "main format_Source scope = main format_Source scope'"
    using assms by (rule main_same_objects)
  have "Lookup scope n = Lookup scope' n" for n
    using assms by (rule Lookup_same_objects)
  then show "collectTypes scope (Names scope) [] = collectTypes scope' (Names scope') []"
    using Names_same_objects [OF assms(3)] collectTypes_same_lookup [of scope scope']
    by simp
  show "main format_Source scope
        = (case extractSchemas scope of
             Inl e \<Rightarrow> Inl e
           | Inr schemas \<Rightarrow> emit format_Source schemas)"
    by (rule main_emit)
next
  assume "collectTypes scope (Names scope) [] = Inr namedTypes"
  from collectTypes_subseq [OF this] have "subseq namedTypes (Names scope)" by simp
  then obtain N where "namedTypes = nths (Names scope) N"
    by (auto simp add: subseq_conv_nths)
  with Names_sorted [of scope] show "sorted namedTypes" and "distinct namedTypes"
    by (simp_all add: sorted_nths)
qed

lemma pkg_embed_schemas:
  "extractSchemas pkg_embed = Inr [(''MX'', MX_fields), (''Wrapped'', MX_fields)]"
  by code_simp

lemma pkg_embed_main: "\<exists>buf. main Inr pkg_embed = Inr (bufferText buf)"
proof -
  have "\<forall>(n, st)\<in>set [(''MX'', MX_fields), (''Wrapped'', MX_fields)].
      \<forall>j. 1 \<le> j \<and> j < length st \<longrightarrow> in_vocabulary (st ! j)"
    by (auto simp: MX_fields_def in_vocabulary_def scalar_annotations_def basic_codec_def
        less_Suc_eq numeral_3_eq_3)
  from emit_total [OF this] show ?thesis
    by (auto simp add: main_emit pkg_embed_schemas)
qed

lemma pkg_embed_names: "collectTypes pkg_embed (Names pkg_embed) [] = Inr [''MX'', ''Wrapped'']"
  by code_simp

lemma pkg_embed_buffers:
  "\<exists>b b'. packAll pkg_embed [''MX'', ''Wrapped''] [PackageHdr, PackComment] = Inr b
     \<and> unpackAll pkg_embed [''MX'', ''Wrapped''] (b @ [UnpackComment]) = Inr b'"
proof -
  from pkg_embed_main obtain buf where m: "main Inr pkg_embed = Inr (bufferText buf)" ..
  show ?thesis
  proof (cases "packAll pkg_embed [''MX'', ''Wrapped''] [PackageHdr, PackComment]")
    case (Inl e)
    with m pkg_embed_names show ?thesis
      by (simp add: main_def del: packAll.simps unpackAll.simps)
  next
    case p: (Inr b)
    show ?thesis
    proof (cases "unpackAll pkg_embed [''MX'', ''Wrapped''] (b @ [UnpackComment])")
      case (Inl e)
      with m pkg_embed_names p show ?thesis
        by (simp add: main_def del: packAll.simps unpackAll.simps)
    next
      case (Inr b')
      with p show ?thesis by blast
    qed
  qed
qed

theorem generator_deterministic_witness:
  "pkg_embed \<noteq> pkg_shuffled
   \<and> map oName pkg_embed = [''MX'', ''RR_Header'', ''TypeMX'', ''TypeWrapped'', ''Wrapped'']
   \<and> map oName pkg_shuffled = [''Wrapped'', ''TypeMX'', ''MX'', ''TypeWrapped'', ''RR_Header'']
   \<and> set pkg_embed = set pkg_shuffled
   \<and> main Inr pkg_embed = main Inr pkg_shuffled
   \<and> (\<exists>buf. main Inr pkg_shuffled = Inr (bufferText buf)
         \<and> pack_names buf = [''MX'', ''Wrapped''] \<and> unpack_names buf = [''MX'', ''Wrapped''])
   \<and> collectTypes pkg_shuffled (Names pkg_shuffled) [] = Inr [''MX'', ''Wrapped'']
   \<and> sorted [''MX'', ''Wrapped'']"
proof -
  have d: "distinct (map oName pkg_embed)" "distinct (map oName pkg_shuffled)"
    by (simp_all add: pkg_embed_def pkg_shuffled_def)
  have s: "set pkg_embed = set pkg_shuffled"
    by (auto simp add: pkg_embed_def pkg_shuffled_def)
  have n: "pkg_embed \<noteq> pkg_shuffled"
    "map oName pkg_embed = [''MX'', ''RR_Header'', ''TypeMX'', ''TypeWrapped'', ''Wrapped'']"
    "map oName pkg_shuffled = [''Wrapped'', ''TypeMX'', ''MX'', ''TypeWrapped'', ''RR_Header'']"
    by (simp_all add: pkg_embed_def pkg_shuffled_def)
  from pkg_embed_buffers obtain b b'
    where p: "packAll pkg_embed [''MX'', ''Wrapped''] [PackageHdr, PackComment] = Inr b"
      and u: "unpackAll pkg_embed [''MX'', ''Wrapped''] (b @ [UnpackComment]) = Inr b'"
    by blast
  note t = generator_deterministic [OF d s, of Inr "[''MX'', ''Wrapped'']" b b']
  from t have m: "main Inr pkg_embed = main Inr pkg_shuffled" by (rule conjunct1)
  from t [THEN conjunct2, THEN conjunct1] pkg_embed_names
  have c: "collectTypes pkg_shuffled (Names pkg_shuffled) [] = Inr [''MX'', ''Wrapped'']"
    by simp
  from t [THEN conjunct2, THEN conjunct2, THEN conjunct1, THEN mp, OF pkg_embed_names]
  have o: "sorted [''MX'', ''Wrapped'']" by (rule conjunct1)
  from t [THEN conjunct2, THEN conjunct2, THEN conjunct2, THEN conjunct1, THEN mp,
      OF conjI [OF pkg_embed_names conjI [OF p u]]] m
  have "main Inr pkg_shuffled = Inr (bufferText b')
    \<and> pack_names b' = [''MX'', ''Wrapped''] \<and> unpack_names b' = [''MX'', ''Wrapped'']"
    by simp
  then have e: "\<exists>buf. main Inr pkg_shuffled = Inr (bufferText buf)
    \<and> pack_names buf = [''MX'', ''Wrapped''] \<and> unpack_names buf = [''MX'', ''Wrapped'']"
    by (rule exI [of _ b'])
  from n s m c o e show ?thesis by simp
qed

end
